theory Spec2Isabelle
  imports Complex_Main "HOL-Library.Word" "HOL-Library.Code_Target_Numeral"
begin

unbundle bit_operations_syntax

section \<open>Number representation (mpfr.h)\<close>

text \<open>
  The rounding modes of \<^verbatim>\<open>mpfr_rnd_t\<close> (mpfr.h, lines 77-86), in the order of the enum.
\<close>

datatype mpfr_rnd_t = MPFR_RNDN | MPFR_RNDZ | MPFR_RNDU | MPFR_RNDD | MPFR_RNDA

text \<open>
  \<^verbatim>\<open>__mpfr_struct\<close> (mpfr.h, lines 125-130). The limb array \<^verbatim>\<open>_mpfr_d\<close> is read as the
  natural number its \<^verbatim>\<open>_mpfr_prec\<close> significant bits spell, so that a regular number is
  \<open>sign * d * 2 ^ (exp - prec)\<close> with \<open>2 ^ (prec - 1) \<le> d < 2 ^ prec\<close>. The exponent is an
  unbounded integer: the exponent range \<^verbatim>\<open>emin .. emax\<close> and the sticky flags live in
  mpfr-impl.h and the library's global state, which are not part of the sources at hand.
\<close>

record mpfr =
  mpfr_prec :: nat
  mpfr_sign :: int
  mpfr_exp :: int
  mpfr_d :: nat

text \<open>The reserved exponents of mpfr.h, lines 696-698, for a 64-bit \<^verbatim>\<open>long\<close>.\<close>

definition MPFR_EXP_ZERO :: int where
  "MPFR_EXP_ZERO = - (2 ^ 63) + 1"

definition MPFR_EXP_NAN :: int where
  "MPFR_EXP_NAN = - (2 ^ 63) + 2"

definition MPFR_EXP_INF :: int where
  "MPFR_EXP_INF = - (2 ^ 63) + 3"

definition MPFR_IS_NAN :: "mpfr \<Rightarrow> bool" where
  "MPFR_IS_NAN x = (mpfr_exp x = MPFR_EXP_NAN)"

definition MPFR_IS_INF :: "mpfr \<Rightarrow> bool" where
  "MPFR_IS_INF x = (mpfr_exp x = MPFR_EXP_INF)"

definition MPFR_IS_ZERO :: "mpfr \<Rightarrow> bool" where
  "MPFR_IS_ZERO x = (mpfr_exp x = MPFR_EXP_ZERO)"

definition MPFR_IS_SINGULAR :: "mpfr \<Rightarrow> bool" where
  "MPFR_IS_SINGULAR x = (mpfr_exp x \<le> MPFR_EXP_INF)"

definition MPFR_IS_NEG :: "mpfr \<Rightarrow> bool" where
  "MPFR_IS_NEG x = (mpfr_sign x < 0)"

definition MPFR_SET_NAN :: "mpfr \<Rightarrow> mpfr" where
  "MPFR_SET_NAN x = x\<lparr>mpfr_exp := MPFR_EXP_NAN\<rparr>"

definition MPFR_SET_INF :: "mpfr \<Rightarrow> mpfr" where
  "MPFR_SET_INF x = x\<lparr>mpfr_exp := MPFR_EXP_INF\<rparr>"

definition MPFR_SET_ZERO :: "mpfr \<Rightarrow> mpfr" where
  "MPFR_SET_ZERO x = x\<lparr>mpfr_exp := MPFR_EXP_ZERO\<rparr>"

definition MPFR_SET_SAME_SIGN :: "mpfr \<Rightarrow> mpfr \<Rightarrow> mpfr" where
  "MPFR_SET_SAME_SIGN x y = x\<lparr>mpfr_sign := mpfr_sign y\<rparr>"

definition MPFR_CHANGE_SIGN :: "mpfr \<Rightarrow> mpfr" where
  "MPFR_CHANGE_SIGN x = x\<lparr>mpfr_sign := - mpfr_sign x\<rparr>"

text \<open>
  A well-formed number: the precision is at least \<^verbatim>\<open>MPFR_PREC_MIN\<close>, the sign field is
  \<open>1\<close> or \<open>-1\<close>, and a regular number is normalised (mpfr.h, lines 140-149).
\<close>

definition MPFR_PREC_MIN :: nat where
  "MPFR_PREC_MIN = 2"

definition mpfr_regular :: "mpfr \<Rightarrow> bool" where
  "mpfr_regular x = (MPFR_PREC_MIN \<le> mpfr_prec x \<and> (mpfr_sign x = 1 \<or> mpfr_sign x = - 1)
     \<and> MPFR_EXP_INF < mpfr_exp x
     \<and> 2 ^ (mpfr_prec x - 1) \<le> mpfr_d x \<and> mpfr_d x < 2 ^ mpfr_prec x)"

definition two_pow :: "int \<Rightarrow> rat" where
  "two_pow e = (if 0 \<le> e then 2 ^ nat e else 1 / 2 ^ nat (- e))"

text \<open>
  The rational number a zero or a regular \<^verbatim>\<open>mpfr_t\<close> stands for (mpfr.h, lines 140-143).
\<close>

definition mpfr_val :: "mpfr \<Rightarrow> rat" where
  "mpfr_val x =
     (if MPFR_IS_ZERO x then 0
      else of_int (mpfr_sign x) * of_nat (mpfr_d x) * two_pow (mpfr_exp x - int (mpfr_prec x)))"

text \<open>
  The exponent of the last significand bit of a number keeps clear of the reserved exponents.
  With the default exponent range of mpfr.h, lines 121-122, this holds for every precision
  below \<open>2 ^ 62\<close>.
\<close>

definition mpfr_in_range :: "mpfr \<Rightarrow> bool" where
  "mpfr_in_range x = (MPFR_EXP_INF \<le> mpfr_exp x - int (mpfr_prec x))"

section \<open>Rounding to a precision\<close>

fun nbits :: "nat \<Rightarrow> nat" where
  "nbits n = (if n = 0 then 0 else Suc (nbits (n div 2)))"

declare nbits.simps [simp del]

text \<open>
  Modelled from the spec: the rounding primitive of section 4.1 (mpfr_round_raw and its
  callers are not among the sources). The discarded part \<open>lo\<close> of \<open>sh\<close> bits is nonzero;
  the answer says whether the kept part \<open>hi\<close> is incremented. Nearest rounds a tie to the
  even candidate, the directed modes follow their direction, away-from-zero always
  increments.
\<close>

definition round_incr :: "mpfr_rnd_t \<Rightarrow> bool \<Rightarrow> nat \<Rightarrow> nat \<Rightarrow> nat \<Rightarrow> bool" where
  "round_incr rnd neg hi lo sh =
     (case rnd of
        MPFR_RNDN \<Rightarrow> 2 ^ sh < 2 * lo \<or> (2 * lo = 2 ^ sh \<and> odd hi)
      | MPFR_RNDZ \<Rightarrow> False
      | MPFR_RNDU \<Rightarrow> \<not> neg
      | MPFR_RNDD \<Rightarrow> neg
      | MPFR_RNDA \<Rightarrow> True)"

text \<open>
  Modelled from the spec: rounding the positive integer \<open>m\<close> of a number of sign \<open>neg\<close> to
  \<open>p\<close> bits (section 4.1). The result is the significand, the exponent \<open>e\<close> with
  \<open>m \<approx> d * 2 ^ (e - p)\<close>, and the ternary indicator of the signed value.
\<close>

definition round_raw :: "nat \<Rightarrow> mpfr_rnd_t \<Rightarrow> bool \<Rightarrow> nat \<Rightarrow> nat \<times> int \<times> int" where
  "round_raw p rnd neg m =
     (let n = nbits m in
      if n \<le> p then (m * 2 ^ (p - n), int n, 0)
      else
        let sh = n - p; hi = m div 2 ^ sh; lo = m mod 2 ^ sh in
        if lo = 0 then (hi, int n, 0)
        else if round_incr rnd neg hi lo sh
        then (if hi + 1 = 2 ^ p then (2 ^ (p - 1), int n + 1, if neg then - 1 else 1)
              else (hi + 1, int n, if neg then - 1 else 1))
        else (hi, int n, if neg then 1 else - 1))"

text \<open>
  Modelled from the spec: \<^verbatim>\<open>mpfr_set4 (a, b, rnd, s)\<close>, declared in mpfr.h line 310 and
  described by copysign.c: \<open>a\<close> receives the magnitude of \<open>b\<close> rounded to the precision of
  \<open>a\<close>, with sign \<open>s\<close>. The sign is copied for every \<open>b\<close>, a NaN included (copysign.c
  lines 26-28).
\<close>

definition mpfr_set4 :: "mpfr \<Rightarrow> mpfr \<Rightarrow> mpfr_rnd_t \<Rightarrow> int \<Rightarrow> mpfr \<times> int" where
  "mpfr_set4 a b rnd s =
     (if MPFR_IS_NAN b then ((MPFR_SET_NAN a)\<lparr>mpfr_sign := s\<rparr>, 0)
      else if MPFR_IS_INF b then ((MPFR_SET_INF a)\<lparr>mpfr_sign := s\<rparr>, 0)
      else if MPFR_IS_ZERO b then ((MPFR_SET_ZERO a)\<lparr>mpfr_sign := s\<rparr>, 0)
      else
        let (d, e, inex) = round_raw (mpfr_prec a) rnd (s < 0) (mpfr_d b) in
        (a\<lparr>mpfr_sign := s, mpfr_exp := mpfr_exp b - int (mpfr_prec b) + e, mpfr_d := d\<rparr>, inex))"

text \<open>The macros \<^verbatim>\<open>mpfr_set\<close> and \<^verbatim>\<open>mpfr_abs\<close> of mpfr.h, lines 742-743.\<close>

definition mpfr_set :: "mpfr \<Rightarrow> mpfr \<Rightarrow> mpfr_rnd_t \<Rightarrow> mpfr \<times> int" where
  "mpfr_set a b rnd = mpfr_set4 a b rnd (mpfr_sign b)"

definition mpfr_abs :: "mpfr \<Rightarrow> mpfr \<Rightarrow> mpfr_rnd_t \<Rightarrow> mpfr \<times> int" where
  "mpfr_abs a b rnd = mpfr_set4 a b rnd 1"

text \<open>
  Modelled from the spec: \<^verbatim>\<open>mpfr_neg\<close> (declared in mpfr.h line 315), the negation of section
  6. Called in place, as rem1.c line 204 does, it flips the sign field and a NaN stays as
  it is; into another variable it rounds to the precision of the destination.
\<close>

definition mpfr_neg :: "mpfr \<Rightarrow> mpfr \<Rightarrow> mpfr_rnd_t \<Rightarrow> mpfr \<times> int" where
  "mpfr_neg a b rnd =
     (if a \<noteq> b then mpfr_set4 a b rnd (- mpfr_sign b)
      else if MPFR_IS_NAN b then (a, 0)
      else (MPFR_CHANGE_SIGN a, 0))"

text \<open>
  Modelled from the spec: \<^verbatim>\<open>mpfr_set_z\<close> (declared in mpfr.h line 288) rounds the integer
  \<open>z\<close> to the precision of the destination; zero is \<open>+0\<close>.
\<close>

definition mpfr_set_z :: "mpfr \<Rightarrow> int \<Rightarrow> mpfr_rnd_t \<Rightarrow> mpfr \<times> int" where
  "mpfr_set_z f z rnd =
     (if z = 0 then (f\<lparr>mpfr_sign := 1, mpfr_exp := MPFR_EXP_ZERO\<rparr>, 0)
      else
        let (d, e, inex) = round_raw (mpfr_prec f) rnd (z < 0) (nat \<bar>z\<bar>) in
        (f\<lparr>mpfr_sign := sgn z, mpfr_exp := e, mpfr_d := d\<rparr>, inex))"

definition mpfr_set_ui :: "mpfr \<Rightarrow> nat \<Rightarrow> mpfr_rnd_t \<Rightarrow> mpfr \<times> int" where
  "mpfr_set_ui f u rnd = mpfr_set_z f (int u) rnd"

text \<open>
  Modelled from the spec: \<^verbatim>\<open>mpfr_get_z_exp\<close>, used by rem1.c lines 90-91 with the contract
  \<open>x = mx * 2 ^ ex\<close>: the significand as a signed integer and the exponent of its last bit.
\<close>

definition mpfr_get_z_exp :: "mpfr \<Rightarrow> int \<times> int" where
  "mpfr_get_z_exp x = (mpfr_sign x * int (mpfr_d x), mpfr_exp x - int (mpfr_prec x))"

section \<open>The integer operations of GMP used by rem1.c\<close>

text \<open>
  GMP is an external library; each operation is given by its documented meaning on
  unbounded integers.
\<close>

definition mpz_abs :: "int \<Rightarrow> int" where
  "mpz_abs a = \<bar>a\<bar>"

function mpz_scan1_nat :: "nat \<Rightarrow> nat" where
  "mpz_scan1_nat n = (if n = 0 \<or> odd n then 0 else Suc (mpz_scan1_nat (n div 2)))"
  by pat_completeness auto
termination
  by (relation "measure (\<lambda>n. n)") auto

declare mpz_scan1_nat.simps [simp del]

text \<open>\<^verbatim>\<open>mpz_scan1 (a, 0)\<close> for a positive \<open>a\<close>: the index of the lowest set bit.\<close>

definition mpz_scan1 :: "int \<Rightarrow> nat" where
  "mpz_scan1 a = mpz_scan1_nat (nat \<bar>a\<bar>)"

definition mpz_mul_2exp :: "int \<Rightarrow> nat \<Rightarrow> int" where
  "mpz_mul_2exp a k = a * 2 ^ k"

definition mpz_div_2exp :: "int \<Rightarrow> nat \<Rightarrow> int" where
  "mpz_div_2exp a k = a div 2 ^ k"

text \<open>Truncating division: the quotient is rounded toward zero, the remainder has the sign of \<open>n\<close>.\<close>

definition mpz_tdiv_qr :: "int \<Rightarrow> int \<Rightarrow> int \<times> int" where
  "mpz_tdiv_qr n d = (sgn n * sgn d * (\<bar>n\<bar> div \<bar>d\<bar>), sgn n * (\<bar>n\<bar> mod \<bar>d\<bar>))"

text \<open>Floor division: the remainder has the sign of \<open>d\<close>.\<close>

definition mpz_fdiv_qr :: "int \<Rightarrow> int \<Rightarrow> int \<times> int" where
  "mpz_fdiv_qr n d = (n div d, n mod d)"

definition mpz_tstbit :: "int \<Rightarrow> nat \<Rightarrow> bool" where
  "mpz_tstbit a k = bit a k"

definition mpz_tdiv_r_2exp :: "int \<Rightarrow> nat \<Rightarrow> int" where
  "mpz_tdiv_r_2exp a k = sgn a * (\<bar>a\<bar> mod 2 ^ k)"

text \<open>\<^verbatim>\<open>mpz_get_si\<close> into a 64-bit \<^verbatim>\<open>long\<close>.\<close>

definition mpz_get_si :: "int \<Rightarrow> 64 word" where
  "mpz_get_si a = word_of_int a"

definition mpz_powm_ui :: "int \<Rightarrow> nat \<Rightarrow> int \<Rightarrow> int" where
  "mpz_powm_ui b e m = b ^ e mod \<bar>m\<bar>"

definition mpz_mod :: "int \<Rightarrow> int \<Rightarrow> int" where
  "mpz_mod a m = a mod \<bar>m\<bar>"

text \<open>\<^verbatim>\<open>mpz_cmpabs\<close>: the sign of \<open>|a| - |b|\<close>.\<close>

definition mpz_cmpabs :: "int \<Rightarrow> int \<Rightarrow> int" where
  "mpz_cmpabs a b = sgn (\<bar>a\<bar> - \<bar>b\<bar>)"

section \<open>The remainder engine (rem1.c)\<close>

text \<open>\<^verbatim>\<open>WANTED_BITS\<close> (rem1.c line 28) for a 64-bit \<^verbatim>\<open>long\<close>.\<close>

definition WANTED_BITS :: nat where
  "WANTED_BITS = 63"

text \<open>
  rem1.c lines 109-127, the branch \<^verbatim>\<open>ex <= ey\<close>. The pointer \<^verbatim>\<open>quo\<close> is an option: \<open>None\<close> is
  the null pointer, \<open>Some v\<close> a \<^verbatim>\<open>long\<close> holding \<open>v\<close>. The result is the new \<open>my\<close>, the
  remainder \<open>r\<close>, \<^verbatim>\<open>q_is_odd\<close> and \<^verbatim>\<open>*quo\<close>.
\<close>

definition rem1_le ::
  "64 word option \<Rightarrow> mpfr_rnd_t \<Rightarrow> int \<Rightarrow> int \<Rightarrow> nat \<Rightarrow> int \<times> int \<times> bool \<times> 64 word option" where
  "rem1_le quo rnd_q mx my sh =
     (let my = mpz_mul_2exp my sh;
          (mx, r) = (if rnd_q = MPFR_RNDZ then mpz_tdiv_qr mx my else mpz_fdiv_qr mx my);
          q_is_odd = (if rnd_q = MPFR_RNDN then mpz_tstbit mx 0 else False);
          quo = (case quo of None \<Rightarrow> None
                 | Some _ \<Rightarrow> Some (mpz_get_si (mpz_tdiv_r_2exp mx WANTED_BITS)))
      in (my, r, q_is_odd, quo))"

text \<open>rem1.c lines 128-170, the branch \<^verbatim>\<open>ex > ey\<close>, with \<open>e = ex - ey\<close>.\<close>

definition rem1_gt ::
  "64 word option \<Rightarrow> mpfr_rnd_t \<Rightarrow> int \<Rightarrow> int \<Rightarrow> nat \<Rightarrow> int \<times> int \<times> bool \<times> 64 word option" where
  "rem1_gt quo rnd_q mx my e =
     (let my = (if quo \<noteq> None then mpz_mul_2exp my WANTED_BITS else mpz_mul_2exp my 1);
          r = 2;
          r = mpz_powm_ui r e my;
          r = r * mx;
          r = mpz_mod r my
      in if quo \<noteq> None
         then
           let my = mpz_div_2exp my WANTED_BITS;
               (mx, r) = mpz_tdiv_qr r my;
               q = mpz_get_si mx;
               q_is_odd = (q AND 1 \<noteq> 0)
           in (my, r, q_is_odd, Some q)
         else
           let my = mpz_div_2exp my 1 in
           if rnd_q = MPFR_RNDN
           then
             let q_is_odd = (0 \<le> mpz_cmpabs r my);
                 r = (if q_is_odd then r - my else r)
             in (my, r, q_is_odd, None)
           else (my, r, False, None))"

text \<open>
  rem1.c lines 176-192: for the nearest quotient, the remainder is moved into
  \<open>[-my/2, my/2]\<close> and \<^verbatim>\<open>*quo\<close> is incremented, in the arithmetic of \<^verbatim>\<open>long\<close>.
\<close>

definition rem1_nearest ::
  "mpfr_rnd_t \<Rightarrow> int \<Rightarrow> int \<Rightarrow> bool \<Rightarrow> 64 word option \<Rightarrow> int \<times> 64 word option" where
  "rem1_nearest rnd_q my r q_is_odd quo =
     (if rnd_q = MPFR_RNDN
      then
        let r2 = mpz_mul_2exp r 1;
            compare = mpz_cmpabs r2 my;
            r = mpz_div_2exp r2 1;
            compare = (0 < compare \<or> (rnd_q = MPFR_RNDN \<and> compare = 0 \<and> q_is_odd))
        in if compare
           then (r - my, if rnd_q = MPFR_RNDN then map_option (\<lambda>q. q + 1) quo else quo)
           else (r, quo)
      else (r, quo))"

text \<open>
  rem1.c lines 97-170 on the integers \<open>x = mx * 2 ^ ex\<close> and \<open>y = my * 2 ^ ey\<close>: the reduced
  \<open>my\<close>, the remainder \<open>r\<close>, \<^verbatim>\<open>q_is_odd\<close>, \<^verbatim>\<open>*quo\<close> and the adjusted \<open>ey\<close>.
\<close>

definition rem1_reduce ::
  "64 word option \<Rightarrow> mpfr_rnd_t \<Rightarrow> int \<Rightarrow> int \<Rightarrow> int \<Rightarrow> int
     \<Rightarrow> int \<times> int \<times> bool \<times> 64 word option \<times> int" where
  "rem1_reduce quo rnd_q mx ex my ey =
     (let mx = mpz_abs mx;
          my = mpz_abs my;
          k = mpz_scan1 my;
          ey = ey + int k;
          my = mpz_div_2exp my k;
          (my, r, q_is_odd, quo) =
            (if ex \<le> ey then rem1_le quo rnd_q mx my (nat (ey - ex))
             else rem1_gt quo rnd_q mx my (nat (ex - ey)))
      in (my, r, q_is_odd, quo, ey))"

text \<open>
  The exact remainder \<open>r * 2 ^ e\<close> of the magnitudes, as the pair \<open>(r, e)\<close>, and the magnitude
  of \<^verbatim>\<open>*quo\<close>: what rem1.c lines 97-192 have computed before the final rounding of line 193
  and before the signs are put back.
\<close>

definition rem1_exact ::
  "64 word option \<Rightarrow> mpfr_rnd_t \<Rightarrow> int \<Rightarrow> int \<Rightarrow> int \<Rightarrow> int \<Rightarrow> int \<times> int \<times> 64 word option" where
  "rem1_exact quo rnd_q mx ex my ey =
     (let (my, r, q_is_odd, quo, ey) = rem1_reduce quo rnd_q mx ex my ey;
          (r, quo) = (if r = 0 then (r, quo) else rem1_nearest rnd_q my r q_is_odd quo)
      in (r, if ey < ex then ey else ex, quo))"

text \<open>
  \<^verbatim>\<open>mpfr_rem1\<close> (rem1.c lines 55-213). The result is the new \<^verbatim>\<open>rem\<close>, the new \<^verbatim>\<open>*quo\<close> and
  the returned ternary indicator.
\<close>

definition mpfr_rem1 ::
  "mpfr \<Rightarrow> 64 word option \<Rightarrow> mpfr_rnd_t \<Rightarrow> mpfr \<Rightarrow> mpfr \<Rightarrow> mpfr_rnd_t \<Rightarrow> mpfr \<times> 64 word option \<times> int" where
  "mpfr_rem1 rem quo rnd_q x y rnd =
     (let signx = mpfr_sign x in
      if MPFR_IS_SINGULAR x \<or> MPFR_IS_SINGULAR y
      then
        if MPFR_IS_NAN x \<or> MPFR_IS_NAN y \<or> MPFR_IS_INF x \<or> MPFR_IS_ZERO y
        then (MPFR_SET_NAN rem, quo, 0)
        else
          let quo = map_option (\<lambda>_. 0) quo;
              (rem, inex) = mpfr_set rem x rnd
          in (rem, quo, inex)
      else
        let (mx, ex) = mpfr_get_z_exp x;
            (my, ey) = mpfr_get_z_exp y;
            sign = (if signx = mpfr_sign y then 1 else - 1);
            (my, r, q_is_odd, quo, ey) = rem1_reduce quo rnd_q mx ex my ey;
            (rem, inex, quo) =
              (if r = 0
               then let (rem, inex) = mpfr_set_ui rem 0 MPFR_RNDN in (rem, inex, quo)
               else
                 let (r, quo) = rem1_nearest rnd_q my r q_is_odd quo;
                     (rem, inex) = mpfr_set_z rem r rnd
                 in (rem\<lparr>mpfr_exp := mpfr_exp rem + (if ey < ex then ey else ex)\<rparr>, inex, quo));
            quo = map_option (\<lambda>q. q * word_of_int sign) quo;
            (rem, inex) =
              (if signx < 0 then (fst (mpfr_neg rem rem MPFR_RNDN), - inex) else (rem, inex))
        in (rem, quo, inex))"

definition mpfr_remainder :: "mpfr \<Rightarrow> mpfr \<Rightarrow> mpfr \<Rightarrow> mpfr_rnd_t \<Rightarrow> mpfr \<times> int" where
  "mpfr_remainder rem x y rnd = (let (rem, _, inex) = mpfr_rem1 rem None MPFR_RNDN x y rnd in (rem, inex))"

definition mpfr_remquo :: "mpfr \<Rightarrow> 64 word \<Rightarrow> mpfr \<Rightarrow> mpfr \<Rightarrow> mpfr_rnd_t \<Rightarrow> mpfr \<times> 64 word \<times> int" where
  "mpfr_remquo rem quo x y rnd =
     (let (rem, quo, inex) = mpfr_rem1 rem (Some quo) MPFR_RNDN x y rnd in (rem, the quo, inex))"

definition mpfr_fmod :: "mpfr \<Rightarrow> mpfr \<Rightarrow> mpfr \<Rightarrow> mpfr_rnd_t \<Rightarrow> mpfr \<times> int" where
  "mpfr_fmod rem x y rnd = (let (rem, _, inex) = mpfr_rem1 rem None MPFR_RNDZ x y rnd in (rem, inex))"

section \<open>The primitives consumed by the escalation loops\<close>

text \<open>
  \<^verbatim>\<open>mpfr_init2\<close> and \<^verbatim>\<open>mpfr_set_prec\<close> give a variable of the requested precision whose
  value is NaN until it is assigned.
\<close>

definition mpfr_init2 :: "nat \<Rightarrow> mpfr" where
  "mpfr_init2 p = \<lparr>mpfr_prec = p, mpfr_sign = 1, mpfr_exp = MPFR_EXP_NAN, mpfr_d = 0\<rparr>"

definition mpfr_set_prec :: "mpfr \<Rightarrow> nat \<Rightarrow> mpfr" where
  "mpfr_set_prec t p = mpfr_init2 p"

text \<open>
  Modelled from the spec: \<^verbatim>\<open>__gmpfr_ceil_log2\<close>, the \<open>O(log2(Nt))\<close> guard bits of section
  4.3: the least \<open>k\<close> with \<open>n \<le> 2 ^ k\<close>.
\<close>

definition ceil_log2 :: "nat \<Rightarrow> nat" where
  "ceil_log2 n = nbits (n - 1)"

text \<open>
  The correctly rounded primitives of section 6 of the specification are supplied from
  outside (mpfr_ui_sub, mpfr_add_ui, mpfr_div, mpfr_log, mpfr_div_2ui and mpfr_can_round
  are declared in mpfr.h and defined elsewhere). Each takes the destination first, as in
  C, and returns the destination's new contents.
\<close>

record mpfr_prims =
  mpfr_ui_sub :: "mpfr \<Rightarrow> nat \<Rightarrow> mpfr \<Rightarrow> mpfr_rnd_t \<Rightarrow> mpfr"
  mpfr_add_ui :: "mpfr \<Rightarrow> mpfr \<Rightarrow> nat \<Rightarrow> mpfr_rnd_t \<Rightarrow> mpfr"
  mpfr_div :: "mpfr \<Rightarrow> mpfr \<Rightarrow> mpfr \<Rightarrow> mpfr_rnd_t \<Rightarrow> mpfr"
  mpfr_log :: "mpfr \<Rightarrow> mpfr \<Rightarrow> mpfr_rnd_t \<Rightarrow> mpfr"
  mpfr_div_2ui :: "mpfr \<Rightarrow> mpfr \<Rightarrow> nat \<Rightarrow> mpfr_rnd_t \<Rightarrow> mpfr"
  mpfr_can_round :: "mpfr \<Rightarrow> int \<Rightarrow> mpfr_rnd_t \<Rightarrow> mpfr_rnd_t \<Rightarrow> nat \<Rightarrow> bool"

section \<open>The inverse hyperbolic tangent (atanh.c)\<close>

text \<open>atanh.c lines 94-103: one evaluation of \<open>1/2 * ln ((1 + x) / (1 - x))\<close> at precision \<open>Nt\<close>.\<close>

definition atanh_trial :: "mpfr_prims \<Rightarrow> mpfr \<Rightarrow> nat \<Rightarrow> mpfr" where
  "atanh_trial P x Nt =
     (let t = mpfr_set_prec (mpfr_init2 Nt) Nt;
          te = mpfr_set_prec (mpfr_init2 Nt) Nt;
          ti = mpfr_set_prec (mpfr_init2 Nt) Nt;
          te = mpfr_ui_sub P te 1 x MPFR_RNDU;
          ti = mpfr_add_ui P ti x 1 MPFR_RNDD;
          te = mpfr_div P te ti te MPFR_RNDN;
          te = mpfr_log P te te MPFR_RNDN;
          t = mpfr_div_2ui P t te 1 MPFR_RNDN
      in t)"

text \<open>
  atanh.c lines 105-107: the error estimate of a trial \<open>t\<close> at precision \<open>Nt\<close>, in the
  arithmetic of the source. \<^verbatim>\<open>err\<close> and the exponent are \<^verbatim>\<open>long\<close>, \<^verbatim>\<open>Nt\<close> is
  \<^verbatim>\<open>unsigned long\<close> (mpfr.h line 108): \<^verbatim>\<open>4 - MPFR_GET_EXP (t)\<close>, the maximum with 0 and the
  increment are signed 64-bit operations, the subtraction from \<^verbatim>\<open>Nt\<close> is unsigned, and the
  difference is read back as a \<^verbatim>\<open>long\<close>. An overflow wraps round.
\<close>

definition atanh_err :: "nat \<Rightarrow> mpfr \<Rightarrow> int" where
  "atanh_err Nt t =
     (let e = (word_of_int (mpfr_exp t) :: 64 word);
          d = 4 - e;
          m = (if 0 <s d then d else 0) + 1;
          err = (word_of_nat Nt :: 64 word) - m
      in sint err)"

text \<open>
  atanh.c lines 113-115: the condition under which the \<^verbatim>\<open>do ... while\<close> loop goes round
  again. \<open>n\<close> is the loop-invariant \<^verbatim>\<open>Ny + (rnd_mode == GMP_RNDN)\<close>.
\<close>

definition atanh_retry :: "mpfr_prims \<Rightarrow> nat \<Rightarrow> nat \<Rightarrow> mpfr \<Rightarrow> bool" where
  "atanh_retry P n Nt t =
     (let err = atanh_err Nt t in
      err < 0 \<or> (\<not> mpfr_can_round P t err MPFR_RNDN MPFR_RNDZ n \<or> MPFR_IS_ZERO t))"

text \<open>
  atanh.c lines 91-115, the \<^verbatim>\<open>do ... while\<close> loop from working precision \<open>Nt\<close>; \<open>None\<close> is a
  loop that never exits.
\<close>

partial_function (option) atanh_loop :: "mpfr_prims \<Rightarrow> mpfr \<Rightarrow> nat \<Rightarrow> nat \<Rightarrow> mpfr option" where
  "atanh_loop P x n Nt =
     (let t = atanh_trial P x Nt in
      if atanh_retry P n Nt t then atanh_loop P x n (Nt + 10) else Some t)"

declare atanh_loop.simps [code]

text \<open>atanh.c lines 65-66: \<open>x = |xt|\<close> at the precision of \<open>xt\<close>.\<close>

definition atanh_abs :: "mpfr \<Rightarrow> mpfr" where
  "atanh_abs xt = (let Nx = mpfr_prec xt; x = mpfr_init2 Nx in fst (mpfr_abs x xt MPFR_RNDN))"

text \<open>atanh.c lines 81-83: the first working precision.\<close>

definition atanh_Nt0 :: "nat \<Rightarrow> nat \<Rightarrow> nat" where
  "atanh_Nt0 Nx Ny = (let Nt = max Nx Ny in Nt + 4 + ceil_log2 Nt)"

text \<open>
  \<^verbatim>\<open>mpfr_atanh\<close> (atanh.c lines 32-128): the new contents of \<open>y\<close> and the returned ternary
  indicator.
\<close>

definition mpfr_atanh :: "mpfr_prims \<Rightarrow> mpfr \<Rightarrow> mpfr \<Rightarrow> mpfr_rnd_t \<Rightarrow> (mpfr \<times> int) option" where
  "mpfr_atanh P y xt rnd_mode =
     (if MPFR_IS_SINGULAR xt \<and> MPFR_IS_NAN xt then Some (MPFR_SET_NAN y, 0)
      else if MPFR_IS_SINGULAR xt \<and> MPFR_IS_INF xt
      then Some (MPFR_SET_SAME_SIGN (MPFR_SET_INF y) xt, 0)
      else if MPFR_IS_SINGULAR xt \<and> MPFR_IS_ZERO xt
      then Some (MPFR_SET_SAME_SIGN (MPFR_SET_ZERO y) xt, 0)
      else
        let x = atanh_abs xt;
            Nx = mpfr_prec x;
            Ny = mpfr_prec y;
            Nt = atanh_Nt0 Nx Ny
        in case atanh_loop P x (Ny + (if rnd_mode = MPFR_RNDN then 1 else 0)) Nt of
             None \<Rightarrow> None
           | Some t \<Rightarrow>
               let t = (if MPFR_IS_NEG xt then MPFR_CHANGE_SIGN t else t)
               in Some (mpfr_set y t rnd_mode))"

section \<open>The gamma function (gamma.c)\<close>

text \<open>
  Modelled from the spec: \<^verbatim>\<open>mpfr_cmp_ui (x, 1)\<close> for a number that is neither NaN nor zero
  nor infinite: the sign of \<open>x - 1\<close>.
\<close>

definition mpfr_cmp_ui_1 :: "mpfr \<Rightarrow> int" where
  "mpfr_cmp_ui_1 x =
     (if mpfr_sign x < 0 \<or> mpfr_exp x \<le> 0 then - 1
      else if mpfr_exp x = 1 \<and> mpfr_d x = 2 ^ (mpfr_prec x - 1) then 0
      else 1)"

text \<open>
  gamma.c lines 93-211, the \<^verbatim>\<open>while (!good)\<close> loop. The body's series evaluation (lines
  95-188) is built from C doubles and from mpfr_exp, mpfr_pow, mpfr_sin, mpfr_const_pi and
  others that are not among the sources; its result \<^verbatim>\<open>GammaTrial\<close> is the parameter \<open>S\<close>, a
  function of what the body reads: \<open>x\<close>, \<^verbatim>\<open>compared\<close> and \<^verbatim>\<open>realprec\<close>. \<open>cr\<close> is
  \<^verbatim>\<open>mpfr_can_round\<close>. \<open>None\<close> is a loop that never exits.
\<close>

partial_function (option) gamma_loop ::
  "(mpfr \<Rightarrow> int \<Rightarrow> nat \<Rightarrow> mpfr) \<Rightarrow> (mpfr \<Rightarrow> int \<Rightarrow> mpfr_rnd_t \<Rightarrow> mpfr_rnd_t \<Rightarrow> nat \<Rightarrow> bool)
     \<Rightarrow> mpfr \<Rightarrow> mpfr \<Rightarrow> mpfr_rnd_t \<Rightarrow> int \<Rightarrow> nat \<Rightarrow> mpfr option" where
  "gamma_loop S cr gamma x rnd_mode compared realprec =
     (let GammaTrial = S x compared realprec in
      if cr GammaTrial (int realprec) MPFR_RNDD rnd_mode (mpfr_prec gamma)
      then Some (fst (mpfr_set gamma GammaTrial rnd_mode))
      else gamma_loop S cr gamma x rnd_mode compared (realprec + ceil_log2 realprec))"

declare gamma_loop.simps [code]

text \<open>
  \<^verbatim>\<open>mpfr_gamma\<close> (gamma.c lines 40-216): the new contents of \<^verbatim>\<open>gamma\<close> and the returned
  integer.
\<close>

definition mpfr_gamma ::
  "(mpfr \<Rightarrow> int \<Rightarrow> nat \<Rightarrow> mpfr) \<Rightarrow> (mpfr \<Rightarrow> int \<Rightarrow> mpfr_rnd_t \<Rightarrow> mpfr_rnd_t \<Rightarrow> nat \<Rightarrow> bool)
     \<Rightarrow> mpfr \<Rightarrow> mpfr \<Rightarrow> mpfr_rnd_t \<Rightarrow> (mpfr \<times> int) option" where
  "mpfr_gamma S cr gamma x rnd_mode =
     (if MPFR_IS_NAN x then Some (MPFR_SET_NAN gamma, 1)
      else if MPFR_IS_ZERO x then Some (MPFR_SET_INF gamma, 1)
      else if MPFR_IS_INF x then Some (MPFR_SET_INF gamma, 1)
      else
        let prec_gamma = mpfr_prec gamma;
            compared = mpfr_cmp_ui_1 x
        in if compared = 0 then Some (fst (mpfr_set_ui gamma 1 rnd_mode), 1)
           else
             let realprec = prec_gamma + 10 in
             case gamma_loop S cr gamma x rnd_mode compared realprec of
               None \<Rightarrow> None
             | Some g \<Rightarrow> Some (g, 1))"

section \<open>Iterates of the escalation loops\<close>

text \<open>The value of \<^verbatim>\<open>realprec\<close> in gamma.c after \<open>k\<close> retries (line 201).\<close>

fun gamma_realprec :: "nat \<Rightarrow> nat \<Rightarrow> nat" where
  "gamma_realprec r 0 = r"
| "gamma_realprec r (Suc k) = gamma_realprec (r + ceil_log2 r) k"

text \<open>
  The test of gamma.c line 194 on the trial computed after \<open>k\<close> retries, starting from
  \<^verbatim>\<open>realprec = r\<close>.
\<close>

definition gamma_accepts ::
  "(mpfr \<Rightarrow> int \<Rightarrow> nat \<Rightarrow> mpfr) \<Rightarrow> (mpfr \<Rightarrow> int \<Rightarrow> mpfr_rnd_t \<Rightarrow> mpfr_rnd_t \<Rightarrow> nat \<Rightarrow> bool)
     \<Rightarrow> mpfr \<Rightarrow> mpfr \<Rightarrow> mpfr_rnd_t \<Rightarrow> int \<Rightarrow> nat \<Rightarrow> nat \<Rightarrow> bool" where
  "gamma_accepts S cr gamma x rnd_mode compared r k =
     cr (S x compared (gamma_realprec r k)) (int (gamma_realprec r k)) MPFR_RNDD rnd_mode
       (mpfr_prec gamma)"

text \<open>
  The loop condition of atanh.c lines 113-115 on the trial computed after \<open>k\<close> retries,
  starting from working precision \<open>Nt\<close>, when each retry adds 10 bits.
\<close>

definition atanh_retries :: "mpfr_prims \<Rightarrow> mpfr \<Rightarrow> nat \<Rightarrow> nat \<Rightarrow> nat \<Rightarrow> bool" where
  "atanh_retries P x n Nt k = atanh_retry P n (Nt + 10 * k) (atanh_trial P x (Nt + 10 * k))"

section \<open>Sample inputs\<close>

definition mk_mpfr :: "nat \<Rightarrow> int \<Rightarrow> int \<Rightarrow> nat \<Rightarrow> mpfr" where
  "mk_mpfr p s e d = \<lparr>mpfr_prec = p, mpfr_sign = s, mpfr_exp = e, mpfr_d = d\<rparr>"

text \<open>
  An instance of the external primitives that answers the calls of \<^verbatim>\<open>mpfr_atanh\<close> on
  \<open>x = 1/2\<close>: \<open>1 - x = 1/2\<close>, \<open>x + 1 = 3/2\<close>, their quotient \<open>3\<close>, for \<open>ln 3\<close> its rounding to
  seven bits \<open>35/32\<close>, an exact halving, and a can-round test that accepts a regular trial
  from 12 correct bits on.
\<close>

definition sample_prims :: mpfr_prims where
  "sample_prims =
     \<lparr>mpfr_ui_sub = (\<lambda>d u x rnd. d\<lparr>mpfr_sign := 1, mpfr_exp := 0, mpfr_d := 2 ^ (mpfr_prec d - 1)\<rparr>),
      mpfr_add_ui = (\<lambda>d x u rnd. d\<lparr>mpfr_sign := 1, mpfr_exp := 1, mpfr_d := 3 * 2 ^ (mpfr_prec d - 2)\<rparr>),
      mpfr_div = (\<lambda>d a b rnd. d\<lparr>mpfr_sign := 1, mpfr_exp := 2, mpfr_d := 3 * 2 ^ (mpfr_prec d - 2)\<rparr>),
      mpfr_log = (\<lambda>d a rnd. d\<lparr>mpfr_sign := 1, mpfr_exp := 1, mpfr_d := 35 * 2 ^ (mpfr_prec d - 6)\<rparr>),
      mpfr_div_2ui = (\<lambda>d a k rnd. d\<lparr>mpfr_sign := (if mpfr_sign a < 0 then - 1 else 1),
                                  mpfr_exp := mpfr_exp a - int k, mpfr_d := mpfr_d a\<rparr>),
      mpfr_can_round = (\<lambda>t err rnd1 rnd2 n. 12 \<le> err \<and> \<not> MPFR_IS_SINGULAR t)\<rparr>"

text \<open>The same primitives with a can-round test that never accepts.\<close>

definition rejecting_prims :: mpfr_prims where
  "rejecting_prims = sample_prims\<lparr>mpfr_can_round := (\<lambda>t err rnd1 rnd2 n. False)\<rparr>"

text \<open>
  A series evaluation for \<^verbatim>\<open>mpfr_gamma\<close> that answers \<open>2\<close> at the working precision, and a
  can-round test that accepts from 14 correct bits on.
\<close>

definition sample_series :: "mpfr \<Rightarrow> int \<Rightarrow> nat \<Rightarrow> mpfr" where
  "sample_series x compared realprec = mk_mpfr realprec 1 2 (2 ^ (realprec - 1))"

definition sample_can_round :: "mpfr \<Rightarrow> int \<Rightarrow> mpfr_rnd_t \<Rightarrow> mpfr_rnd_t \<Rightarrow> nat \<Rightarrow> bool" where
  "sample_can_round t err rnd1 rnd2 n = (14 \<le> err)"

definition rejecting_can_round :: "mpfr \<Rightarrow> int \<Rightarrow> mpfr_rnd_t \<Rightarrow> mpfr_rnd_t \<Rightarrow> nat \<Rightarrow> bool" where
  "rejecting_can_round t err rnd1 rnd2 n = False"

section \<open>Notions used to state the properties\<close>

text \<open>The rounding mode that mirrors a mode under negation.\<close>

definition rnd_mirror :: "mpfr_rnd_t \<Rightarrow> mpfr_rnd_t" where
  "rnd_mirror rnd =
     (case rnd of MPFR_RNDU \<Rightarrow> MPFR_RNDD | MPFR_RNDD \<Rightarrow> MPFR_RNDU | _ \<Rightarrow> rnd)"

text \<open>The negation of a returned pair of value and ternary indicator.\<close>

definition neg_result :: "mpfr \<times> int \<Rightarrow> mpfr \<times> int" where
  "neg_result ri = (MPFR_CHANGE_SIGN (fst ri), - snd ri)"

text \<open>
  What the loops of \<^verbatim>\<open>mpfr_atanh\<close> need of the external primitives: the halving returns a
  number with a sign, and can-round never accepts a NaN.
\<close>

definition prims_wf :: "mpfr_prims \<Rightarrow> bool" where
  "prims_wf P =
     ((\<forall>d a k rnd. mpfr_sign (mpfr_div_2ui P d a k rnd) \<noteq> 0)
      \<and> (\<forall>t err rnd1 rnd2 n. mpfr_can_round P t err rnd1 rnd2 n \<longrightarrow> \<not> MPFR_IS_NAN t))"

text \<open>
  rem1.c lines 172-174 and 193-195: the exact remainder \<open>r * 2 ^ e\<close> of the magnitudes stored
  into \<^verbatim>\<open>rem\<close>, rounded to its precision.
\<close>

definition rem1_store :: "mpfr \<Rightarrow> int \<Rightarrow> int \<Rightarrow> mpfr_rnd_t \<Rightarrow> mpfr \<times> int" where
  "rem1_store rem r e rnd =
     (if r = 0 then mpfr_set_ui rem 0 MPFR_RNDN
      else let (rem, inex) = mpfr_set_z rem r rnd in (rem\<lparr>mpfr_exp := mpfr_exp rem + e\<rparr>, inex))"

text \<open>
  The quotients and the remainder in the words of the specification (section 4.4): \<open>x / y\<close>
  rounded to an integer toward zero, or to the nearest integer with ties to even, and
  \<open>x - q * y\<close>.
\<close>

definition quotient_trunc :: "rat \<Rightarrow> rat \<Rightarrow> int" where
  "quotient_trunc x y = (if 0 \<le> x / y then \<lfloor>x / y\<rfloor> else \<lceil>x / y\<rceil>)"

definition quotient_nearest :: "rat \<Rightarrow> rat \<Rightarrow> int" where
  "quotient_nearest x y =
     (let q = x / y; f = \<lfloor>q\<rfloor> in
      if q - of_int f < 1 / 2 then f
      else if 1 / 2 < q - of_int f then f + 1
      else if even f then f else f + 1)"

definition remainder_of :: "int \<Rightarrow> rat \<Rightarrow> rat \<Rightarrow> rat" where
  "remainder_of q x y = x - of_int q * y"

text \<open>
  The values the external primitives return along the evaluation of \<^verbatim>\<open>mpfr_atanh\<close> at
  \<open>x = 1\<close>: \<open>1 - x\<close> is \<open>+0\<close>, \<open>x + 1\<close> is 2, the quotient \<open>2 / 0\<close> is \<open>+Inf\<close>, and so are its
  logarithm and the half of it. Can-round accepts from 12 correct bits on, and never a
  singular value.
\<close>

definition pole_prims :: mpfr_prims where
  "pole_prims =
     \<lparr>mpfr_ui_sub = (\<lambda>d u x rnd. (MPFR_SET_ZERO d)\<lparr>mpfr_sign := 1\<rparr>),
      mpfr_add_ui = (\<lambda>d x u rnd. d\<lparr>mpfr_sign := 1, mpfr_exp := 2, mpfr_d := 2 ^ (mpfr_prec d - 1)\<rparr>),
      mpfr_div = (\<lambda>d a b rnd. (MPFR_SET_INF d)\<lparr>mpfr_sign := 1\<rparr>),
      mpfr_log = (\<lambda>d a rnd. (MPFR_SET_INF d)\<lparr>mpfr_sign := 1\<rparr>),
      mpfr_div_2ui = (\<lambda>d a k rnd. (MPFR_SET_INF d)\<lparr>mpfr_sign := 1\<rparr>),
      mpfr_can_round = (\<lambda>t err rnd1 rnd2 n. 12 \<le> err \<and> \<not> MPFR_IS_SINGULAR t)\<rparr>"

section \<open>Auxiliary facts\<close>

lemma sentinels_distinct:
  "MPFR_EXP_INF \<noteq> MPFR_EXP_NAN" "MPFR_EXP_ZERO \<noteq> MPFR_EXP_NAN" "MPFR_EXP_ZERO \<noteq> MPFR_EXP_INF"
  "MPFR_EXP_ZERO < MPFR_EXP_INF" "MPFR_EXP_NAN < MPFR_EXP_INF" "MPFR_EXP_ZERO < MPFR_EXP_NAN"
  by (simp_all add: MPFR_EXP_INF_def MPFR_EXP_NAN_def MPFR_EXP_ZERO_def)

subsection \<open>The escalation loops exit at the first accepted trial, and only there\<close>

lemma atanh_loop_exit:
  "\<not> atanh_retries P x n Nt m \<Longrightarrow> \<forall>k<m. atanh_retries P x n Nt k \<Longrightarrow>
   atanh_loop P x n Nt = Some (atanh_trial P x (Nt + 10 * m))"
proof (induction m arbitrary: Nt)
  case 0
  then show ?case by (subst atanh_loop.simps) (simp add: atanh_retries_def)
next
  case (Suc m)
  have r0: "atanh_retry P n Nt (atanh_trial P x Nt)"
    using Suc.prems(2) [rule_format, of 0] by (simp add: atanh_retries_def)
  have a: "\<not> atanh_retries P x n (Nt + 10) m"
    using Suc.prems(1) by (simp add: atanh_retries_def add.assoc)
  have b: "\<forall>k<m. atanh_retries P x n (Nt + 10) k"
  proof (intro allI impI)
    fix k assume "k < m"
    then show "atanh_retries P x n (Nt + 10) k"
      using Suc.prems(2) [rule_format, of "Suc k"] by (simp add: atanh_retries_def add.assoc)
  qed
  have "atanh_loop P x n (Nt + 10) = Some (atanh_trial P x (Nt + 10 + 10 * m))"
    by (rule Suc.IH [OF a b])
  then show ?case
    using r0 by (subst atanh_loop.simps) (simp add: add.assoc)
qed

lemma atanh_loop_Some:
  assumes "atanh_loop P x n Nt = Some t"
  shows "\<exists>m. \<not> atanh_retries P x n Nt m \<and> (\<forall>k<m. atanh_retries P x n Nt k)
     \<and> t = atanh_trial P x (Nt + 10 * m)"
proof -
  define Q where "Q = (\<lambda>a t. case a of (((P, x), n), Nt) \<Rightarrow>
     \<exists>m. \<not> atanh_retries P x n Nt m \<and> (\<forall>k<m. atanh_retries P x n Nt k)
     \<and> t = atanh_trial P x (Nt + 10 * m))"
  have "Q (((P, x), n), Nt) t"
  proof (rule atanh_loop.raw_induct [where Pa = Q and xa = "(((P, x), n), Nt)" and y = t])
    show "(case (((P, x), n), Nt) of (a, b) \<Rightarrow> (case a of (a, b) \<Rightarrow> (case a of (a, b) \<Rightarrow> atanh_loop a b) b) b) = Some t"
      using assms by simp
  next
    fix loop P x n Nt t
    assume IH: "\<And>P x n Nt t. loop P x n Nt = Some t \<Longrightarrow> Q (((P, x), n), Nt) t"
      and eq: "(let t = atanh_trial P x Nt in if atanh_retry P n Nt t then loop P x n (Nt + 10) else Some t) = Some t"
    show "Q (((P, x), n), Nt) t"
    proof (cases "atanh_retry P n Nt (atanh_trial P x Nt)")
      case False
      with eq have "t = atanh_trial P x Nt" by simp
      with False show ?thesis unfolding Q_def
        by (auto intro!: exI [of _ 0] simp: atanh_retries_def)
    next
      case True
      with eq have "loop P x n (Nt + 10) = Some t" by simp
      from IH [OF this] obtain m where
        m: "\<not> atanh_retries P x n (Nt + 10) m"
           "\<forall>k<m. atanh_retries P x n (Nt + 10) k"
           "t = atanh_trial P x (Nt + 10 + 10 * m)" unfolding Q_def by auto
      have "\<forall>k<Suc m. atanh_retries P x n Nt k"
      proof (intro allI impI)
        fix k assume k: "k < Suc m"
        show "atanh_retries P x n Nt k"
        proof (cases k)
          case 0 with True show ?thesis by (simp add: atanh_retries_def)
        next
          case (Suc j)
          with k m(2) [rule_format, of j] show ?thesis
            by (simp add: atanh_retries_def add.assoc)
        qed
      qed
      moreover have "\<not> atanh_retries P x n Nt (Suc m)"
        using m(1) by (simp add: atanh_retries_def add.assoc)
      ultimately show ?thesis using m(3) unfolding Q_def
        by (auto intro!: exI [of _ "Suc m"] simp: add.assoc)
    qed
  qed
  then show ?thesis unfolding Q_def by simp
qed

lemma atanh_loop_None_iff:
  "atanh_loop P x n Nt = None \<longleftrightarrow> (\<forall>k. atanh_retries P x n Nt k)"
proof
  assume N: "atanh_loop P x n Nt = None"
  show "\<forall>k. atanh_retries P x n Nt k"
  proof (rule ccontr)
    assume "\<not> (\<forall>k. atanh_retries P x n Nt k)"
    then have ex: "\<exists>k. \<not> atanh_retries P x n Nt k" by simp
    define m where "m = (LEAST k. \<not> atanh_retries P x n Nt k)"
    have 1: "\<not> atanh_retries P x n Nt m"
      unfolding m_def using ex by (rule LeastI_ex)
    have 2: "\<forall>k<m. atanh_retries P x n Nt k"
      unfolding m_def using not_less_Least by blast
    from atanh_loop_exit [OF 1 2] N show False by simp
  qed
next
  assume A: "\<forall>k. atanh_retries P x n Nt k"
  show "atanh_loop P x n Nt = None"
  proof (cases "atanh_loop P x n Nt")
    case (Some t)
    from atanh_loop_Some [OF this] A show ?thesis by blast
  qed simp
qed

lemma gamma_loop_exit:
  "gamma_accepts S cr g x rnd c r m \<Longrightarrow> \<forall>k<m. \<not> gamma_accepts S cr g x rnd c r k \<Longrightarrow>
   gamma_loop S cr g x rnd c r = Some (fst (mpfr_set g (S x c (gamma_realprec r m)) rnd))"
proof (induction m arbitrary: r)
  case 0
  then show ?case by (subst gamma_loop.simps) (simp add: gamma_accepts_def)
next
  case (Suc m)
  have r0: "\<not> cr (S x c r) (int r) MPFR_RNDD rnd (mpfr_prec g)"
    using Suc.prems(2) [rule_format, of 0] by (simp add: gamma_accepts_def)
  have a: "gamma_accepts S cr g x rnd c (r + ceil_log2 r) m"
    using Suc.prems(1) by (simp add: gamma_accepts_def)
  have b: "\<forall>k<m. \<not> gamma_accepts S cr g x rnd c (r + ceil_log2 r) k"
  proof (intro allI impI)
    fix k assume "k < m"
    then show "\<not> gamma_accepts S cr g x rnd c (r + ceil_log2 r) k"
      using Suc.prems(2) [rule_format, of "Suc k"] by (simp add: gamma_accepts_def)
  qed
  have "gamma_loop S cr g x rnd c (r + ceil_log2 r)
        = Some (fst (mpfr_set g (S x c (gamma_realprec (r + ceil_log2 r) m)) rnd))"
    by (rule Suc.IH [OF a b])
  then show ?case
    using r0 by (subst gamma_loop.simps) simp
qed

lemma gamma_loop_Some:
  assumes "gamma_loop S cr g x rnd c r = Some v"
  shows "\<exists>m. gamma_accepts S cr g x rnd c r m \<and> (\<forall>k<m. \<not> gamma_accepts S cr g x rnd c r k)"
proof -
  define Q where "Q = (\<lambda>S cr g x rnd c r (v::mpfr).
     \<exists>m. gamma_accepts S cr g x rnd c r m \<and> (\<forall>k<m. \<not> gamma_accepts S cr g x rnd c r k))"
  have "Q S cr g x rnd c r v"
  proof (rule gamma_loop.raw_induct [where P = Q and xa = "((((((S, cr), g), x), rnd), c), r)" and y = v, unfolded prod.case])
    show "gamma_loop S cr g x rnd c r = Some v"
      using assms by simp
  next
    fix loop S cr g x rnd c r v
    assume IH: "\<And>S cr g x rnd c r v. loop S cr g x rnd c r = Some v \<Longrightarrow> Q S cr g x rnd c r v"
      and eq: "(let GammaTrial = S x c r in
                if cr GammaTrial (int r) MPFR_RNDD rnd (mpfr_prec g)
                then Some (fst (mpfr_set g GammaTrial rnd))
                else loop S cr g x rnd c (r + ceil_log2 r)) = Some v"
    show "Q S cr g x rnd c r v"
    proof (cases "cr (S x c r) (int r) MPFR_RNDD rnd (mpfr_prec g)")
      case True
      then show ?thesis unfolding Q_def
        by (auto intro!: exI [of _ 0] simp: gamma_accepts_def)
    next
      case False
      with eq have "loop S cr g x rnd c (r + ceil_log2 r) = Some v" by simp
      from IH [OF this] obtain m where
        m: "gamma_accepts S cr g x rnd c (r + ceil_log2 r) m"
           "\<forall>k<m. \<not> gamma_accepts S cr g x rnd c (r + ceil_log2 r) k"
        unfolding Q_def by auto
      have "\<forall>k<Suc m. \<not> gamma_accepts S cr g x rnd c r k"
      proof (intro allI impI)
        fix k assume k: "k < Suc m"
        show "\<not> gamma_accepts S cr g x rnd c r k"
        proof (cases k)
          case 0 with False show ?thesis by (simp add: gamma_accepts_def)
        next
          case (Suc j)
          with k m(2) [rule_format, of j] show ?thesis
            by (simp add: gamma_accepts_def)
        qed
      qed
      moreover have "gamma_accepts S cr g x rnd c r (Suc m)"
        using m(1) by (simp add: gamma_accepts_def)
      ultimately show ?thesis unfolding Q_def by blast
    qed
  qed
  then show ?thesis unfolding Q_def by simp
qed

lemma gamma_loop_None_iff:
  "gamma_loop S cr g x rnd c r = None \<longleftrightarrow> (\<forall>k. \<not> gamma_accepts S cr g x rnd c r k)"
proof
  assume N: "gamma_loop S cr g x rnd c r = None"
  show "\<forall>k. \<not> gamma_accepts S cr g x rnd c r k"
  proof (rule ccontr)
    assume "\<not> (\<forall>k. \<not> gamma_accepts S cr g x rnd c r k)"
    then have ex: "\<exists>k. gamma_accepts S cr g x rnd c r k" by simp
    define m where "m = (LEAST k. gamma_accepts S cr g x rnd c r k)"
    have 1: "gamma_accepts S cr g x rnd c r m"
      unfolding m_def using ex by (rule LeastI_ex)
    have 2: "\<forall>k<m. \<not> gamma_accepts S cr g x rnd c r k"
      unfolding m_def using not_less_Least by blast
    from gamma_loop_exit [OF 1 2] N show False by simp
  qed
next
  assume A: "\<forall>k. \<not> gamma_accepts S cr g x rnd c r k"
  show "gamma_loop S cr g x rnd c r = None"
  proof (cases "gamma_loop S cr g x rnd c r")
    case (Some t)
    from gamma_loop_Some [OF this] A show ?thesis by blast
  qed simp
qed


section \<open>Special values of atanh\<close>

text \<open>
  C10: for an input of \<open>+Inf\<close> or \<open>-Inf\<close>, \<^verbatim>\<open>mpfr_atanh\<close> returns an infinity (not NaN) with
  the sign of the input, and the ternary indicator 0.
\<close>

theorem atanh_inf:
  "MPFR_IS_INF xt \<Longrightarrow>
   \<exists>r. mpfr_atanh P y xt rnd_mode = Some (r, 0) \<and> MPFR_IS_INF r \<and> \<not> MPFR_IS_NAN r
     \<and> mpfr_sign r = mpfr_sign xt"
  by (simp add: mpfr_atanh_def MPFR_IS_INF_def MPFR_IS_NAN_def MPFR_IS_SINGULAR_def
      MPFR_SET_INF_def MPFR_SET_SAME_SIGN_def sentinels_distinct)

theorem atanh_inf_witness:
  "MPFR_IS_INF (mk_mpfr 2 (- 1) MPFR_EXP_INF 0) \<and>
   (\<exists>r. mpfr_atanh sample_prims (mk_mpfr 5 1 MPFR_EXP_ZERO 0) (mk_mpfr 2 (- 1) MPFR_EXP_INF 0)
           MPFR_RNDU = Some (r, 0)
      \<and> MPFR_IS_INF r \<and> \<not> MPFR_IS_NAN r \<and> mpfr_sign r = - 1)"
proof -
  have h: "MPFR_IS_INF (mk_mpfr 2 (- 1) MPFR_EXP_INF 0)"
    by (simp add: MPFR_IS_INF_def mk_mpfr_def)
  show ?thesis
    using h atanh_inf [OF h, of sample_prims "mk_mpfr 5 1 MPFR_EXP_ZERO 0" MPFR_RNDU]
    by (simp add: mk_mpfr_def)
qed

section \<open>The value returned by gamma\<close>

lemma sample_gamma_accepts:
  "gamma_accepts sample_series sample_can_round (mk_mpfr 2 (- 1) 0 0) (mk_mpfr 2 1 2 3) MPFR_RNDD
     (mpfr_cmp_ui_1 (mk_mpfr 2 1 2 3)) (mpfr_prec (mk_mpfr 2 (- 1) 0 0) + 10) 1"
  by code_simp

lemma sample_cmp_one: "mpfr_cmp_ui_1 (mk_mpfr 2 1 1 2) = 0"
  by code_simp

text \<open>
  C9: every return of \<^verbatim>\<open>mpfr_gamma\<close> returns 1: whatever it returns has indicator 1; the
  trivial cases (NaN, zero, infinity, \<open>x = 1\<close>) do return, with 1; and so does the general
  case as soon as some trial passes the can-round test.
\<close>

theorem gamma_returns_one:
  "(\<forall>g' i. mpfr_gamma S cr g x rnd = Some (g', i) \<longrightarrow> i = 1)
   \<and> (MPFR_IS_NAN x \<or> MPFR_IS_ZERO x \<or> MPFR_IS_INF x \<or> mpfr_cmp_ui_1 x = 0
        \<longrightarrow> (\<exists>g'. mpfr_gamma S cr g x rnd = Some (g', 1)))
   \<and> ((\<exists>k. gamma_accepts S cr g x rnd (mpfr_cmp_ui_1 x) (mpfr_prec g + 10) k)
        \<longrightarrow> (\<exists>g'. mpfr_gamma S cr g x rnd = Some (g', 1)))"
proof (intro conjI allI impI)
  fix g' i assume "mpfr_gamma S cr g x rnd = Some (g', i)"
  then show "i = 1"
    by (auto simp: mpfr_gamma_def Let_def split: if_splits option.splits)
next
  assume "MPFR_IS_NAN x \<or> MPFR_IS_ZERO x \<or> MPFR_IS_INF x \<or> mpfr_cmp_ui_1 x = 0"
  then show "\<exists>g'. mpfr_gamma S cr g x rnd = Some (g', 1)"
    by (auto simp: mpfr_gamma_def Let_def)
next
  assume "\<exists>k. gamma_accepts S cr g x rnd (mpfr_cmp_ui_1 x) (mpfr_prec g + 10) k"
  then have "gamma_loop S cr g x rnd (mpfr_cmp_ui_1 x) (mpfr_prec g + 10) \<noteq> None"
    using gamma_loop_None_iff by blast
  then show "\<exists>g'. mpfr_gamma S cr g x rnd = Some (g', 1)"
    by (auto simp: mpfr_gamma_def Let_def)
qed

theorem gamma_returns_one_witness:
  "mpfr_cmp_ui_1 (mk_mpfr 2 1 1 2) = 0
   \<and> (\<exists>g'. mpfr_gamma sample_series sample_can_round (mk_mpfr 2 (- 1) 0 0) (mk_mpfr 2 1 1 2)
              MPFR_RNDD = Some (g', 1))
   \<and> gamma_accepts sample_series sample_can_round (mk_mpfr 2 (- 1) 0 0) (mk_mpfr 2 1 2 3) MPFR_RNDD
        (mpfr_cmp_ui_1 (mk_mpfr 2 1 2 3)) (mpfr_prec (mk_mpfr 2 (- 1) 0 0) + 10) 1
   \<and> (\<exists>g'. mpfr_gamma sample_series sample_can_round (mk_mpfr 2 (- 1) 0 0) (mk_mpfr 2 1 2 3)
              MPFR_RNDD = Some (g', 1))"
proof -
  note t1 = gamma_returns_one [of sample_series sample_can_round "mk_mpfr 2 (- 1) 0 0"
      "mk_mpfr 2 1 2 3" MPFR_RNDD]
  note t2 = gamma_returns_one [of sample_series sample_can_round "mk_mpfr 2 (- 1) 0 0"
      "mk_mpfr 2 1 1 2" MPFR_RNDD]
  from t2 sample_cmp_one
  have a: "\<exists>g'. mpfr_gamma sample_series sample_can_round (mk_mpfr 2 (- 1) 0 0) (mk_mpfr 2 1 1 2)
              MPFR_RNDD = Some (g', 1)"
    by blast
  from t1 sample_gamma_accepts
  have b: "\<exists>g'. mpfr_gamma sample_series sample_can_round (mk_mpfr 2 (- 1) 0 0) (mk_mpfr 2 1 2 3)
              MPFR_RNDD = Some (g', 1)"
    by blast
  from a b sample_cmp_one sample_gamma_accepts show ?thesis by blast
qed

lemma mpfr_set4_prec [simp]: "mpfr_prec (fst (mpfr_set4 a b rnd s)) = mpfr_prec a"
  by (simp add: mpfr_set4_def MPFR_SET_NAN_def MPFR_SET_INF_def MPFR_SET_ZERO_def Let_def
      split: prod.splits)

lemma atanh_abs_prec [simp]: "mpfr_prec (atanh_abs xt) = mpfr_prec xt"
  by (simp add: atanh_abs_def mpfr_abs_def Let_def mpfr_init2_def)

lemma not_singular_cases:
  "\<not> MPFR_IS_SINGULAR x \<Longrightarrow> \<not> MPFR_IS_NAN x \<and> \<not> MPFR_IS_INF x \<and> \<not> MPFR_IS_ZERO x"
  using sentinels_distinct
  by (auto simp: MPFR_IS_SINGULAR_def MPFR_IS_NAN_def MPFR_IS_INF_def MPFR_IS_ZERO_def)

lemma mpfr_atanh_None_iff:
  "\<not> MPFR_IS_SINGULAR xt \<Longrightarrow>
   mpfr_atanh P y xt rnd = None \<longleftrightarrow>
   (\<forall>k. atanh_retries P (atanh_abs xt) (mpfr_prec y + (if rnd = MPFR_RNDN then 1 else 0))
          (atanh_Nt0 (mpfr_prec xt) (mpfr_prec y)) k)"
  by (simp add: mpfr_atanh_def Let_def atanh_loop_None_iff [symmetric] split: option.splits)

lemma mpfr_gamma_None_iff:
  "\<not> MPFR_IS_NAN x \<Longrightarrow> \<not> MPFR_IS_ZERO x \<Longrightarrow> \<not> MPFR_IS_INF x \<Longrightarrow> mpfr_cmp_ui_1 x \<noteq> 0 \<Longrightarrow>
   mpfr_gamma S cr g x rnd = None \<longleftrightarrow>
   (\<forall>k. \<not> gamma_accepts S cr g x rnd (mpfr_cmp_ui_1 x) (mpfr_prec g + 10) k)"
  by (simp add: mpfr_gamma_def Let_def gamma_loop_None_iff [symmetric] split: option.splits)

section \<open>Exit of the escalation loops\<close>

text \<open>
  C5, as amended: neither loop has an iteration cap, a precision cap or an assertion. On an
  input that is not singular \<^verbatim>\<open>mpfr_atanh\<close> returns exactly when the loop test of some trial
  (nonnegative error estimate, can-round accepts, trial not zero) lets the loop exit, and on
  an input that is none of NaN, zero, infinity and 1 \<^verbatim>\<open>mpfr_gamma\<close> returns exactly when
  can-round accepts some trial; otherwise the loop never exits.
\<close>
theorem escalation_exit_iff:
  "(\<not> MPFR_IS_SINGULAR xt \<longrightarrow>
      (mpfr_atanh P y xt rnd \<noteq> None) =
      (\<exists>k. \<not> atanh_retries P (atanh_abs xt) (mpfr_prec y + (if rnd = MPFR_RNDN then 1 else 0))
              (atanh_Nt0 (mpfr_prec xt) (mpfr_prec y)) k))
   \<and> (\<not> MPFR_IS_NAN x \<and> \<not> MPFR_IS_ZERO x \<and> \<not> MPFR_IS_INF x \<and> mpfr_cmp_ui_1 x \<noteq> 0 \<longrightarrow>
      (mpfr_gamma S cr g x rnd \<noteq> None) =
      (\<exists>k. gamma_accepts S cr g x rnd (mpfr_cmp_ui_1 x) (mpfr_prec g + 10) k))"
  by (simp add: mpfr_atanh_None_iff mpfr_gamma_None_iff)

lemma sample_half_regular: "\<not> MPFR_IS_SINGULAR (mk_mpfr 2 1 0 2)"
  by code_simp

lemma sample_three_regular:
  "\<not> MPFR_IS_NAN (mk_mpfr 2 1 2 3) \<and> \<not> MPFR_IS_ZERO (mk_mpfr 2 1 2 3)
   \<and> \<not> MPFR_IS_INF (mk_mpfr 2 1 2 3) \<and> mpfr_cmp_ui_1 (mk_mpfr 2 1 2 3) \<noteq> 0"
  by code_simp

lemma sample_atanh_exits:
  "\<not> atanh_retries sample_prims (atanh_abs (mk_mpfr 2 1 0 2))
       (mpfr_prec (mk_mpfr 2 1 0 0) + (if MPFR_RNDD = MPFR_RNDN then 1 else 0))
       (atanh_Nt0 (mpfr_prec (mk_mpfr 2 1 0 2)) (mpfr_prec (mk_mpfr 2 1 0 0))) 1"
  by code_simp

theorem escalation_exit_iff_witness:
  "\<not> MPFR_IS_SINGULAR (mk_mpfr 2 1 0 2)
   \<and> mpfr_atanh sample_prims (mk_mpfr 2 1 0 0) (mk_mpfr 2 1 0 2) MPFR_RNDD \<noteq> None
   \<and> \<not> MPFR_IS_NAN (mk_mpfr 2 1 2 3) \<and> \<not> MPFR_IS_ZERO (mk_mpfr 2 1 2 3)
   \<and> \<not> MPFR_IS_INF (mk_mpfr 2 1 2 3) \<and> mpfr_cmp_ui_1 (mk_mpfr 2 1 2 3) \<noteq> 0
   \<and> mpfr_gamma sample_series sample_can_round (mk_mpfr 2 (- 1) 0 0) (mk_mpfr 2 1 2 3) MPFR_RNDD \<noteq> None"
  using escalation_exit_iff [where xt = "mk_mpfr 2 1 0 2" and P = sample_prims
      and y = "mk_mpfr 2 1 0 0" and rnd = MPFR_RNDD and x = "mk_mpfr 2 1 2 3" and S = sample_series
      and cr = sample_can_round and g = "mk_mpfr 2 (- 1) 0 0"]
    sample_half_regular sample_three_regular sample_atanh_exits sample_gamma_accepts
  by auto

text \<open>
  With a can-round test that rejects every trial, neither function returns or reports
  anything on \<open>x = 1/2\<close> and \<open>x = 3\<close>.
\<close>

theorem escalation_cap_counterexample:
  "mpfr_atanh rejecting_prims (mk_mpfr 2 1 0 0) (mk_mpfr 2 1 0 2) MPFR_RNDN = None
   \<and> mpfr_gamma sample_series rejecting_can_round (mk_mpfr 2 1 0 0) (mk_mpfr 2 1 2 3) MPFR_RNDN = None"
proof
  have "\<forall>k. atanh_retries rejecting_prims (atanh_abs (mk_mpfr 2 1 0 2))
          (mpfr_prec (mk_mpfr 2 1 0 0) + (if MPFR_RNDN = MPFR_RNDN then 1 else 0))
          (atanh_Nt0 (mpfr_prec (mk_mpfr 2 1 0 2)) (mpfr_prec (mk_mpfr 2 1 0 0))) k"
    by (simp add: atanh_retries_def atanh_retry_def rejecting_prims_def Let_def)
  then show "mpfr_atanh rejecting_prims (mk_mpfr 2 1 0 0) (mk_mpfr 2 1 0 2) MPFR_RNDN = None"
    using mpfr_atanh_None_iff [OF sample_half_regular] by blast
next
  have "\<forall>k. \<not> gamma_accepts sample_series rejecting_can_round (mk_mpfr 2 1 0 0) (mk_mpfr 2 1 2 3)
          MPFR_RNDN (mpfr_cmp_ui_1 (mk_mpfr 2 1 2 3)) (mpfr_prec (mk_mpfr 2 1 0 0) + 10) k"
    by (simp add: gamma_accepts_def rejecting_can_round_def)
  then show "mpfr_gamma sample_series rejecting_can_round (mk_mpfr 2 1 0 0) (mk_mpfr 2 1 2 3) MPFR_RNDN = None"
    using mpfr_gamma_None_iff sample_three_regular by blast
qed

lemma round_incr_mirror: "round_incr (rnd_mirror rnd) (\<not> neg) hi lo sh = round_incr rnd neg hi lo sh"
  by (cases rnd) (simp_all add: round_incr_def rnd_mirror_def)

lemma round_raw_mirror:
  "round_raw p (rnd_mirror rnd) (\<not> neg) m
     = (case round_raw p rnd neg m of (d, e, i) \<Rightarrow> (d, e, - i))"
  by (simp add: round_raw_def Let_def round_incr_mirror)

lemma rnd_mirror_mirror [simp]: "rnd_mirror (rnd_mirror rnd) = rnd"
  by (cases rnd) (simp_all add: rnd_mirror_def)

lemma rnd_mirror_RNDN [simp]: "(rnd_mirror rnd = MPFR_RNDN) = (rnd = MPFR_RNDN)"
  by (cases rnd) (simp_all add: rnd_mirror_def)

lemma mpfr_set_change_sign:
  assumes "mpfr_sign t \<noteq> 0" "\<not> MPFR_IS_NAN t"
  shows "mpfr_set y (MPFR_CHANGE_SIGN t) rnd = neg_result (mpfr_set y t (rnd_mirror rnd))"
proof -
  have n: "(0 < mpfr_sign t) = (\<not> mpfr_sign t < 0)" using assms(1) by auto
  have r: "round_raw (mpfr_prec y) rnd (0 < mpfr_sign t) (mpfr_d t)
      = (case round_raw (mpfr_prec y) (rnd_mirror rnd) (mpfr_sign t < 0) (mpfr_d t) of
           (d, e, i) \<Rightarrow> (d, e, - i))"
    unfolding n using round_raw_mirror [of "mpfr_prec y" "rnd_mirror rnd" "mpfr_sign t < 0" "mpfr_d t"]
    by simp
  show ?thesis
    using assms(2)
    by (simp add: mpfr_set_def mpfr_set4_def MPFR_CHANGE_SIGN_def neg_result_def
        MPFR_IS_NAN_def MPFR_IS_INF_def MPFR_IS_ZERO_def MPFR_SET_INF_def MPFR_SET_ZERO_def
        r split: prod.splits)
qed

lemma atanh_abs_change_sign [simp]: "atanh_abs (MPFR_CHANGE_SIGN x) = atanh_abs x"
  by (simp add: atanh_abs_def mpfr_abs_def mpfr_set4_def MPFR_CHANGE_SIGN_def Let_def
      MPFR_IS_NAN_def MPFR_IS_INF_def MPFR_IS_ZERO_def)

lemma change_sign_tests [simp]:
  "MPFR_IS_NAN (MPFR_CHANGE_SIGN x) = MPFR_IS_NAN x"
  "MPFR_IS_INF (MPFR_CHANGE_SIGN x) = MPFR_IS_INF x"
  "MPFR_IS_ZERO (MPFR_CHANGE_SIGN x) = MPFR_IS_ZERO x"
  "MPFR_IS_SINGULAR (MPFR_CHANGE_SIGN x) = MPFR_IS_SINGULAR x"
  "mpfr_prec (MPFR_CHANGE_SIGN x) = mpfr_prec x"
  by (simp_all add: MPFR_CHANGE_SIGN_def MPFR_IS_NAN_def MPFR_IS_INF_def MPFR_IS_ZERO_def
      MPFR_IS_SINGULAR_def)

lemma atanh_loop_result:
  assumes "atanh_loop P x n Nt = Some t" "prims_wf P"
  shows "mpfr_sign t \<noteq> 0 \<and> \<not> MPFR_IS_NAN t"
proof -
  from atanh_loop_Some [OF assms(1)] obtain m where
    m: "\<not> atanh_retries P x n Nt m" "t = atanh_trial P x (Nt + 10 * m)" by blast
  from m(1) have "mpfr_can_round P t (atanh_err (Nt + 10 * m) t) MPFR_RNDN MPFR_RNDZ n"
    by (simp add: atanh_retries_def atanh_retry_def Let_def m(2))
  moreover from assms(2)
  have "\<And>t e r1 r2 n. mpfr_can_round P t e r1 r2 n \<Longrightarrow> \<not> MPFR_IS_NAN t"
    unfolding prims_wf_def by blast
  ultimately have "\<not> MPFR_IS_NAN t" by blast
  moreover have "mpfr_sign t \<noteq> 0"
    using assms(2) by (simp add: m(2) atanh_trial_def Let_def prims_wf_def)
  ultimately show ?thesis by simp
qed

lemma mpfr_atanh_general:
  assumes "\<not> MPFR_IS_NAN xt" "\<not> MPFR_IS_INF xt" "\<not> MPFR_IS_ZERO xt"
  shows "mpfr_atanh P y xt rnd =
     (case atanh_loop P (atanh_abs xt) (mpfr_prec y + (if rnd = MPFR_RNDN then 1 else 0))
             (atanh_Nt0 (mpfr_prec xt) (mpfr_prec y)) of
        None \<Rightarrow> None
      | Some t \<Rightarrow> Some (mpfr_set y (if MPFR_IS_NEG xt then MPFR_CHANGE_SIGN t else t) rnd))"
  using assms by (simp add: mpfr_atanh_def Let_def split: option.splits)

lemma sentinels_le: "MPFR_EXP_ZERO \<le> MPFR_EXP_INF" "MPFR_EXP_NAN \<le> MPFR_EXP_INF"
  by (simp_all add: MPFR_EXP_INF_def MPFR_EXP_NAN_def MPFR_EXP_ZERO_def)

lemma mpfr_atanh_change_sign:
  assumes "mpfr_sign x \<noteq> 0" "\<not> MPFR_IS_NAN x" "prims_wf P"
  shows "mpfr_atanh P y (MPFR_CHANGE_SIGN x) rnd
         = map_option neg_result (mpfr_atanh P y x (rnd_mirror rnd))"
proof (cases "MPFR_IS_INF x \<or> MPFR_IS_ZERO x")
  case True
  with assms(2) show ?thesis
    by (auto simp: mpfr_atanh_def neg_result_def MPFR_CHANGE_SIGN_def MPFR_SET_SAME_SIGN_def
        MPFR_SET_INF_def MPFR_SET_ZERO_def MPFR_IS_SINGULAR_def MPFR_IS_NAN_def
        MPFR_IS_INF_def MPFR_IS_ZERO_def sentinels_distinct sentinels_le)
next
  case False
  then have ns: "\<not> MPFR_IS_INF x" "\<not> MPFR_IS_ZERO x" by simp_all
  have neg: "MPFR_IS_NEG (MPFR_CHANGE_SIGN x) = (\<not> MPFR_IS_NEG x)"
    using assms(1) by (auto simp: MPFR_IS_NEG_def MPFR_CHANGE_SIGN_def)
  let ?n = "mpfr_prec y + (if rnd = MPFR_RNDN then 1 else 0)"
  let ?L = "atanh_loop P (atanh_abs x) ?n (atanh_Nt0 (mpfr_prec x) (mpfr_prec y))"
  have g1: "mpfr_atanh P y (MPFR_CHANGE_SIGN x) rnd =
     (case ?L of None \<Rightarrow> None
      | Some t \<Rightarrow> Some (mpfr_set y (if \<not> MPFR_IS_NEG x then MPFR_CHANGE_SIGN t else t) rnd))"
    using mpfr_atanh_general [of "MPFR_CHANGE_SIGN x" P y rnd] assms(2) ns by (simp add: neg cong: option.case_cong)
  have g2: "mpfr_atanh P y x (rnd_mirror rnd) =
     (case ?L of None \<Rightarrow> None
      | Some t \<Rightarrow> Some (mpfr_set y (if MPFR_IS_NEG x then MPFR_CHANGE_SIGN t else t) (rnd_mirror rnd)))"
    using mpfr_atanh_general [of x P y "rnd_mirror rnd"] assms(2) ns
    by (simp cong: option.case_cong)
  show ?thesis
  proof (cases ?L)
    case None
    then show ?thesis by (simp add: g1 g2)
  next
    case (Some t)
    from atanh_loop_result [OF Some assms(3)] have t: "mpfr_sign t \<noteq> 0" "\<not> MPFR_IS_NAN t"
      by simp_all
    have t': "mpfr_sign (MPFR_CHANGE_SIGN t) \<noteq> 0" "\<not> MPFR_IS_NAN (MPFR_CHANGE_SIGN t)"
      using t by (simp_all add: MPFR_CHANGE_SIGN_def MPFR_IS_NAN_def)
    have cc: "MPFR_CHANGE_SIGN (MPFR_CHANGE_SIGN t) = t"
      by (simp add: MPFR_CHANGE_SIGN_def)
    show ?thesis
    proof (cases "MPFR_IS_NEG x")
      case True
      have "mpfr_set y t rnd = neg_result (mpfr_set y (MPFR_CHANGE_SIGN t) (rnd_mirror rnd))"
        using mpfr_set_change_sign [OF t', of y rnd] by (simp add: cc)
      with True Some show ?thesis by (simp add: g1 g2)
    next
      case N: False
      with Some mpfr_set_change_sign [OF t, of y rnd]
      show ?thesis by (simp add: g1 g2)
    qed
  qed
qed

lemma nbits_0 [simp]: "nbits 0 = 0"
  by (simp add: nbits.simps)

lemma nbits_pos: "0 < n \<Longrightarrow> nbits n = Suc (nbits (n div 2))"
  by (subst nbits.simps) simp

lemma nbits_upper: "n < 2 ^ nbits n"
proof (induction n rule: nbits.induct)
  case (1 n)
  show ?case
  proof (cases "n = 0")
    case False
    with 1 have "n div 2 < 2 ^ nbits (n div 2)" by simp
    then have "n < 2 * 2 ^ nbits (n div 2)" by linarith
    with False show ?thesis by (simp add: nbits_pos)
  qed simp
qed

lemma nbits_lower: "0 < n \<Longrightarrow> 2 ^ (nbits n - 1) \<le> n"
proof (induction n rule: nbits.induct)
  case (1 n)
  show ?case
  proof (cases "n div 2 = 0")
    case True
    with 1(2) have "n = 1" by linarith
    then show ?thesis by (simp add: nbits_pos)
  next
    case False
    then have p: "0 < n div 2" by simp
    with 1 have "2 ^ (nbits (n div 2) - 1) \<le> n div 2" by simp
    moreover have "0 < nbits (n div 2)" using p by (simp add: nbits_pos)
    ultimately have "2 ^ nbits (n div 2) \<le> 2 * (n div 2)"
      by (cases "nbits (n div 2)") simp_all
    then have "2 ^ nbits (n div 2) \<le> n" by linarith
    with 1(2) show ?thesis by (simp add: nbits_pos)
  qed
qed

lemma nbits_eq:
  assumes "2 ^ (p - 1) \<le> d" "d < 2 ^ p" "0 < p"
  shows "nbits d = p"
proof -
  have d: "0 < d" using assms(1) by (metis less_le_trans zero_less_numeral zero_less_power)
  have "(2::nat) ^ (p - 1) < 2 ^ nbits d"
    using assms(1) nbits_upper [of d] by linarith
  then have a: "p - 1 < nbits d" by (simp add: power_strict_increasing_iff)
  have "(2::nat) ^ (nbits d - 1) < 2 ^ p"
    using nbits_lower [OF d] assms(2) by linarith
  then have b: "nbits d - 1 < p" by (simp add: power_strict_increasing_iff)
  from a b assms(3) show ?thesis by linarith
qed

lemma round_raw_exact:
  "nbits m \<le> p \<Longrightarrow> round_raw p rnd neg m = (m * 2 ^ (p - nbits m), int (nbits m), 0)"
  by (simp add: round_raw_def Let_def)

lemma regular_nbits: "mpfr_regular x \<Longrightarrow> nbits (mpfr_d x) = mpfr_prec x"
  by (rule nbits_eq) (simp_all add: mpfr_regular_def MPFR_PREC_MIN_def)

lemma regular_not_singular:
  "mpfr_regular x \<Longrightarrow> \<not> MPFR_IS_SINGULAR x \<and> \<not> MPFR_IS_NAN x \<and> \<not> MPFR_IS_INF x \<and> \<not> MPFR_IS_ZERO x"
  using sentinels_distinct
  by (auto simp: mpfr_regular_def MPFR_IS_SINGULAR_def MPFR_IS_NAN_def MPFR_IS_INF_def
      MPFR_IS_ZERO_def)

lemma mpfr_set4_regular_same_prec:
  assumes "mpfr_regular b" "mpfr_prec a = mpfr_prec b"
  shows "mpfr_set4 a b rnd s = (a\<lparr>mpfr_sign := s, mpfr_exp := mpfr_exp b, mpfr_d := mpfr_d b\<rparr>, 0)"
  using regular_not_singular [OF assms(1)] regular_nbits [OF assms(1)] assms(2)
  by (simp add: mpfr_set4_def round_raw_exact)

lemma atanh_abs_regular:
  "mpfr_regular xt \<Longrightarrow> atanh_abs xt = xt\<lparr>mpfr_sign := 1\<rparr>"
  by (simp add: atanh_abs_def Let_def mpfr_abs_def mpfr_set4_regular_same_prec mpfr_init2_def)


lemma sample_prims_wf: "prims_wf sample_prims"
  using sentinels_distinct(5)
  by (auto simp: prims_wf_def sample_prims_def MPFR_IS_NAN_def MPFR_IS_SINGULAR_def)

section \<open>Odd symmetry of atanh\<close>

text \<open>
  C7: for every input \<open>x\<close> that is not NaN, and primitives whose trial has a sign and whose
  can-round test rejects NaN, \<^verbatim>\<open>mpfr_atanh\<close> at \<open>-x\<close> is the negation of \<^verbatim>\<open>mpfr_atanh\<close> at \<open>x\<close>,
  field for field, under nearest, toward zero and away from zero; toward \<open>+Inf\<close> at \<open>-x\<close>
  is the negation of toward \<open>-Inf\<close> at \<open>x\<close>, and conversely. The ternary indicator is
  negated too, and \<open>-x\<close> loops forever exactly when \<open>x\<close> does.
\<close>

theorem atanh_odd_symmetry:
  assumes "mpfr_sign x \<noteq> 0" and "\<not> MPFR_IS_NAN x" and "prims_wf P"
  shows "(rnd = MPFR_RNDN \<or> rnd = MPFR_RNDZ \<or> rnd = MPFR_RNDA \<longrightarrow>
            mpfr_atanh P y (MPFR_CHANGE_SIGN x) rnd = map_option neg_result (mpfr_atanh P y x rnd))
         \<and> mpfr_atanh P y (MPFR_CHANGE_SIGN x) MPFR_RNDU
             = map_option neg_result (mpfr_atanh P y x MPFR_RNDD)
         \<and> mpfr_atanh P y (MPFR_CHANGE_SIGN x) MPFR_RNDD
             = map_option neg_result (mpfr_atanh P y x MPFR_RNDU)"
proof (intro conjI impI)
  assume "rnd = MPFR_RNDN \<or> rnd = MPFR_RNDZ \<or> rnd = MPFR_RNDA"
  then have "rnd_mirror rnd = rnd" by (auto simp: rnd_mirror_def)
  with mpfr_atanh_change_sign [OF assms, of y rnd]
  show "mpfr_atanh P y (MPFR_CHANGE_SIGN x) rnd = map_option neg_result (mpfr_atanh P y x rnd)"
    by simp
next
  from mpfr_atanh_change_sign [OF assms, of y MPFR_RNDU]
  show "mpfr_atanh P y (MPFR_CHANGE_SIGN x) MPFR_RNDU
          = map_option neg_result (mpfr_atanh P y x MPFR_RNDD)"
    by (simp add: rnd_mirror_def)
next
  from mpfr_atanh_change_sign [OF assms, of y MPFR_RNDD]
  show "mpfr_atanh P y (MPFR_CHANGE_SIGN x) MPFR_RNDD
          = map_option neg_result (mpfr_atanh P y x MPFR_RNDU)"
    by (simp add: rnd_mirror_def)
qed

lemma sample_atanh_half_RNDD:
  "mpfr_atanh sample_prims (mk_mpfr 2 1 0 0) (mk_mpfr 2 1 0 2) MPFR_RNDD = Some (mk_mpfr 2 1 0 2, - 1)"
  by code_simp

lemma sample_atanh_half_RNDN:
  "mpfr_atanh sample_prims (mk_mpfr 2 1 0 0) (mk_mpfr 2 1 0 2) MPFR_RNDN = Some (mk_mpfr 2 1 0 2, - 1)"
  by code_simp

theorem atanh_odd_symmetry_witness:
  "mpfr_sign (mk_mpfr 2 1 0 2) \<noteq> 0 \<and> \<not> MPFR_IS_NAN (mk_mpfr 2 1 0 2) \<and> prims_wf sample_prims
   \<and> mpfr_atanh sample_prims (mk_mpfr 2 1 0 0) (MPFR_CHANGE_SIGN (mk_mpfr 2 1 0 2)) MPFR_RNDN
       = Some (mk_mpfr 2 (- 1) 0 2, 1)
   \<and> mpfr_atanh sample_prims (mk_mpfr 2 1 0 0) (MPFR_CHANGE_SIGN (mk_mpfr 2 1 0 2)) MPFR_RNDU
       = Some (mk_mpfr 2 (- 1) 0 2, 1)"
proof -
  have h1: "mpfr_sign (mk_mpfr 2 1 0 2) \<noteq> 0" by (simp add: mk_mpfr_def)
  have h2: "\<not> MPFR_IS_NAN (mk_mpfr 2 1 0 2)" by code_simp
  have n: "neg_result (mk_mpfr 2 1 0 2, - 1) = (mk_mpfr 2 (- 1) 0 2, 1)"
    by (simp add: neg_result_def MPFR_CHANGE_SIGN_def mk_mpfr_def)
  from atanh_odd_symmetry [OF h1 h2 sample_prims_wf, of MPFR_RNDN "mk_mpfr 2 1 0 0"]
  show ?thesis
    by (simp add: h1 h2 sample_prims_wf sample_atanh_half_RNDD sample_atanh_half_RNDN n)
qed

section \<open>Special values and the sign of atanh\<close>

text \<open>
  C8, as amended: \<^verbatim>\<open>mpfr_atanh\<close> maps NaN to NaN and a zero to the zero of the same sign; for
  every other finite input the identity is evaluated on \<open>|x|\<close>, and the sign of \<open>x\<close> is put
  on the working-precision result before the final rounding to the caller's precision and
  mode. For a negative \<open>x\<close> that is the negation of the result rounded in the mirrored
  mode: the same mode for nearest, toward zero and away from zero, the opposite direction
  for toward \<open>+Inf\<close> and toward \<open>-Inf\<close>.
\<close>

theorem atanh_special_and_sign:
  "(MPFR_IS_NAN xt \<longrightarrow> (\<exists>r. mpfr_atanh P y xt rnd = Some (r, 0) \<and> MPFR_IS_NAN r))
   \<and> (MPFR_IS_ZERO xt \<longrightarrow>
        (\<exists>r. mpfr_atanh P y xt rnd = Some (r, 0) \<and> MPFR_IS_ZERO r \<and> mpfr_sign r = mpfr_sign xt))
   \<and> (mpfr_regular xt \<longrightarrow>
        atanh_abs xt = xt\<lparr>mpfr_sign := 1\<rparr>
        \<and> mpfr_atanh P y xt rnd =
            (case atanh_loop P (atanh_abs xt) (mpfr_prec y + (if rnd = MPFR_RNDN then 1 else 0))
                    (atanh_Nt0 (mpfr_prec xt) (mpfr_prec y)) of
               None \<Rightarrow> None
             | Some t \<Rightarrow> Some (mpfr_set y (if MPFR_IS_NEG xt then MPFR_CHANGE_SIGN t else t) rnd)))
   \<and> (mpfr_regular xt \<and> MPFR_IS_NEG xt \<and> prims_wf P \<longrightarrow>
        mpfr_atanh P y xt rnd =
            (case atanh_loop P (atanh_abs xt) (mpfr_prec y + (if rnd = MPFR_RNDN then 1 else 0))
                    (atanh_Nt0 (mpfr_prec xt) (mpfr_prec y)) of
               None \<Rightarrow> None
             | Some t \<Rightarrow> Some (neg_result (mpfr_set y t (rnd_mirror rnd)))))"
proof (intro conjI impI)
  assume "MPFR_IS_NAN xt"
  then show "\<exists>r. mpfr_atanh P y xt rnd = Some (r, 0) \<and> MPFR_IS_NAN r"
    by (simp add: mpfr_atanh_def MPFR_IS_NAN_def MPFR_IS_SINGULAR_def MPFR_SET_NAN_def
        sentinels_le)
next
  assume "MPFR_IS_ZERO xt"
  then show "\<exists>r. mpfr_atanh P y xt rnd = Some (r, 0) \<and> MPFR_IS_ZERO r \<and> mpfr_sign r = mpfr_sign xt"
    by (simp add: mpfr_atanh_def MPFR_IS_NAN_def MPFR_IS_INF_def MPFR_IS_ZERO_def
        MPFR_IS_SINGULAR_def MPFR_SET_ZERO_def MPFR_SET_SAME_SIGN_def sentinels_le
        sentinels_distinct)
next
  assume "mpfr_regular xt"
  then show "atanh_abs xt = xt\<lparr>mpfr_sign := 1\<rparr>" by (rule atanh_abs_regular)
next
  assume r: "mpfr_regular xt"
  from regular_not_singular [OF r]
  show "mpfr_atanh P y xt rnd =
            (case atanh_loop P (atanh_abs xt) (mpfr_prec y + (if rnd = MPFR_RNDN then 1 else 0))
                    (atanh_Nt0 (mpfr_prec xt) (mpfr_prec y)) of
               None \<Rightarrow> None
             | Some t \<Rightarrow> Some (mpfr_set y (if MPFR_IS_NEG xt then MPFR_CHANGE_SIGN t else t) rnd))"
    by (simp add: mpfr_atanh_general)
next
  assume a: "mpfr_regular xt \<and> MPFR_IS_NEG xt \<and> prims_wf P"
  let ?L = "atanh_loop P (atanh_abs xt) (mpfr_prec y + (if rnd = MPFR_RNDN then 1 else 0))
                    (atanh_Nt0 (mpfr_prec xt) (mpfr_prec y))"
  from a regular_not_singular [of xt]
  have g: "mpfr_atanh P y xt rnd =
            (case ?L of None \<Rightarrow> None | Some t \<Rightarrow> Some (mpfr_set y (MPFR_CHANGE_SIGN t) rnd))"
    by (simp add: mpfr_atanh_general cong: option.case_cong)
  show "mpfr_atanh P y xt rnd =
            (case ?L of None \<Rightarrow> None | Some t \<Rightarrow> Some (neg_result (mpfr_set y t (rnd_mirror rnd))))"
  proof (cases ?L)
    case None
    then show ?thesis by (simp add: g)
  next
    case (Some t)
    from atanh_loop_result [OF Some] a have "mpfr_sign t \<noteq> 0" "\<not> MPFR_IS_NAN t" by simp_all
    from mpfr_set_change_sign [OF this, of y rnd] Some show ?thesis by (simp add: g)
  qed
qed

lemma sample_minus_half:
  "mpfr_regular (mk_mpfr 2 (- 1) 0 2) \<and> MPFR_IS_NEG (mk_mpfr 2 (- 1) 0 2)"
  by code_simp

lemma sample_minus_half_loop:
  "atanh_loop sample_prims (atanh_abs (mk_mpfr 2 (- 1) 0 2))
     (mpfr_prec (mk_mpfr 2 1 0 0) + (if MPFR_RNDU = MPFR_RNDN then 1 else 0))
     (atanh_Nt0 (mpfr_prec (mk_mpfr 2 (- 1) 0 2)) (mpfr_prec (mk_mpfr 2 1 0 0)))
   = Some (mk_mpfr 17 1 0 71680)"
  by code_simp

lemma sample_round_down: "mpfr_set (mk_mpfr 2 1 0 0) (mk_mpfr 17 1 0 71680) (rnd_mirror MPFR_RNDU)
   = (mk_mpfr 2 1 0 2, - 1)"
  by code_simp

lemma sample_round_up: "mpfr_set (mk_mpfr 2 1 0 0) (mk_mpfr 17 1 0 71680) MPFR_RNDU
   = (mk_mpfr 2 1 0 3, 1)"
  by code_simp

theorem atanh_special_and_sign_witness:
  "mpfr_regular (mk_mpfr 2 (- 1) 0 2) \<and> MPFR_IS_NEG (mk_mpfr 2 (- 1) 0 2) \<and> prims_wf sample_prims
   \<and> mpfr_atanh sample_prims (mk_mpfr 2 1 0 0) (mk_mpfr 2 (- 1) 0 2) MPFR_RNDU
       = Some (neg_result (mk_mpfr 2 1 0 2, - 1))"
proof -
  have h: "mpfr_regular (mk_mpfr 2 (- 1) 0 2) \<and> MPFR_IS_NEG (mk_mpfr 2 (- 1) 0 2)
      \<and> prims_wf sample_prims"
    using sample_minus_half sample_prims_wf by simp
  have "mpfr_atanh sample_prims (mk_mpfr 2 1 0 0) (mk_mpfr 2 (- 1) 0 2) MPFR_RNDU
       = Some (neg_result (mk_mpfr 2 1 0 2, - 1))"
    using atanh_special_and_sign [of "mk_mpfr 2 (- 1) 0 2" sample_prims "mk_mpfr 2 1 0 0" MPFR_RNDU,
        THEN conjunct2, THEN conjunct2, THEN conjunct2, THEN mp, OF h]
    by (simp only: sample_minus_half_loop option.case sample_round_down)
  with h show ?thesis by simp
qed

text \<open>
  At \<open>x = -1/2\<close>, a two-bit destination and rounding toward \<open>+Inf\<close> the code returns \<open>-1/2\<close>;
  the sign put back after the final rounding of the trial would give \<open>-3/4\<close>.
\<close>

theorem atanh_sign_after_rounding_counterexample:
  "mpfr_atanh sample_prims (mk_mpfr 2 1 0 0) (mk_mpfr 2 (- 1) 0 2) MPFR_RNDU
     = Some (mk_mpfr 2 (- 1) 0 2, 1)
   \<and> map_option (\<lambda>t. neg_result (mpfr_set (mk_mpfr 2 1 0 0) t MPFR_RNDU))
        (atanh_loop sample_prims (atanh_abs (mk_mpfr 2 (- 1) 0 2))
           (mpfr_prec (mk_mpfr 2 1 0 0) + (if MPFR_RNDU = MPFR_RNDN then 1 else 0))
           (atanh_Nt0 (mpfr_prec (mk_mpfr 2 (- 1) 0 2)) (mpfr_prec (mk_mpfr 2 1 0 0))))
     = Some (mk_mpfr 2 (- 1) 0 3, - 1)"
proof
  show "mpfr_atanh sample_prims (mk_mpfr 2 1 0 0) (mk_mpfr 2 (- 1) 0 2) MPFR_RNDU
     = Some (mk_mpfr 2 (- 1) 0 2, 1)"
    by code_simp
  show "map_option (\<lambda>t. neg_result (mpfr_set (mk_mpfr 2 1 0 0) t MPFR_RNDU))
        (atanh_loop sample_prims (atanh_abs (mk_mpfr 2 (- 1) 0 2))
           (mpfr_prec (mk_mpfr 2 1 0 0) + (if MPFR_RNDU = MPFR_RNDN then 1 else 0))
           (atanh_Nt0 (mpfr_prec (mk_mpfr 2 (- 1) 0 2)) (mpfr_prec (mk_mpfr 2 1 0 0))))
     = Some (mk_mpfr 2 (- 1) 0 3, - 1)"
    by (simp only: sample_minus_half_loop option.map sample_round_up)
      (simp add: neg_result_def MPFR_CHANGE_SIGN_def mk_mpfr_def)
qed

section \<open>Integer facts about the remainder engine\<close>

lemma two_pow_pos [simp]: "0 < two_pow e"
  by (simp add: two_pow_def)

lemma two_pow_0 [simp]: "two_pow 0 = 1"
  by (simp add: two_pow_def)

lemma two_pow_nat: "two_pow (int k) = 2 ^ k"
  by (simp add: two_pow_def)

lemma two_pow_add: "two_pow (a + b) = two_pow a * two_pow b"
proof -
  have "two_pow e = 2 powi e" for e
    by (simp add: two_pow_def power_int_def inverse_eq_divide power_one_over)
  then show ?thesis by (simp add: power_int_add)
qed

lemma two_pow_diff_nat: "b \<le> a \<Longrightarrow> two_pow a = 2 ^ nat (a - b) * two_pow b"
  using two_pow_add [of "a - b" b] by (simp add: two_pow_def)

lemma scan1_dvd: "0 < n \<Longrightarrow> 2 ^ mpz_scan1_nat n dvd n"
proof (induction n rule: mpz_scan1_nat.induct)
  case (1 n)
  show ?case
  proof (cases "odd n")
    case True
    then show ?thesis by (subst mpz_scan1_nat.simps) simp
  next
    case False
    with 1(2) have p: "0 < n div 2" by presburger
    from 1(1) False 1(2) p have "2 ^ mpz_scan1_nat (n div 2) dvd n div 2" by simp
    then have "2 * 2 ^ mpz_scan1_nat (n div 2) dvd 2 * (n div 2)" by (rule mult_dvd_mono [OF dvd_refl])
    moreover have "2 * (n div 2) = n" using False by simp
    ultimately show ?thesis using False 1(2) by (subst mpz_scan1_nat.simps) simp
  qed
qed

lemma scan1_int:
  assumes "my \<noteq> 0"
  shows "mpz_div_2exp \<bar>my\<bar> (mpz_scan1 \<bar>my\<bar>) * 2 ^ mpz_scan1 \<bar>my\<bar> = \<bar>my\<bar>"
    and "0 < mpz_div_2exp \<bar>my\<bar> (mpz_scan1 \<bar>my\<bar>)"
proof -
  let ?k = "mpz_scan1 \<bar>my\<bar>"
  have "0 < nat \<bar>my\<bar>" using assms by simp
  from scan1_dvd [OF this] have "2 ^ ?k dvd nat \<bar>my\<bar>" by (simp add: mpz_scan1_def)
  then have "int (2 ^ ?k) dvd int (nat \<bar>my\<bar>)" by (simp only: int_dvd_int_iff)
  then have d: "(2::int) ^ ?k dvd \<bar>my\<bar>" by simp
  then show 1: "mpz_div_2exp \<bar>my\<bar> ?k * 2 ^ ?k = \<bar>my\<bar>"
    by (simp add: mpz_div_2exp_def)
  show "0 < mpz_div_2exp \<bar>my\<bar> ?k"
  proof (rule ccontr)
    assume "\<not> 0 < mpz_div_2exp \<bar>my\<bar> ?k"
    then have "mpz_div_2exp \<bar>my\<bar> ?k \<le> 0" by simp
    then have "mpz_div_2exp \<bar>my\<bar> ?k * 2 ^ ?k \<le> 0"
      by (simp add: mult_le_0_iff)
    with 1 assms show False by simp
  qed
qed

lemma rem1_nearest_bound:
  assumes "0 \<le> r" "r < my"
  shows "2 * \<bar>fst (rem1_nearest MPFR_RNDN my r qo quo)\<bar> \<le> my"
  using assms
  by (auto simp: rem1_nearest_def Let_def mpz_mul_2exp_def mpz_div_2exp_def mpz_cmpabs_def
      sgn_if split: if_splits)

lemma rem1_nearest_RNDZ: "rnd_q \<noteq> MPFR_RNDN \<Longrightarrow> rem1_nearest rnd_q my r qo quo = (r, quo)"
  by (simp add: rem1_nearest_def)

lemma tdiv_nonneg: "0 \<le> n \<Longrightarrow> 0 < d \<Longrightarrow> mpz_tdiv_qr n d = (n div d, n mod d)"
  by (cases "n = 0") (simp_all add: mpz_tdiv_qr_def sgn_if)

lemma rem1_le_props:
  assumes "0 \<le> mx" "0 < my"
  shows "rem1_le quo rnd_q mx my sh =
     (my * 2 ^ sh, mx mod (my * 2 ^ sh), rnd_q = MPFR_RNDN \<and> odd (mx div (my * 2 ^ sh)),
      map_option (\<lambda>_. word_of_int (mx div (my * 2 ^ sh) mod 2 ^ WANTED_BITS)) quo)"
proof -
  let ?Y = "my * 2 ^ sh"
  have Y: "0 < ?Y" using assms(2) by simp
  have q: "0 \<le> mx div ?Y" using assms(1) Y by (simp add: pos_imp_zdiv_nonneg_iff)
  have t: "mpz_tdiv_qr mx ?Y = (mx div ?Y, mx mod ?Y)"
    using assms(1) Y by (rule tdiv_nonneg)
  have m: "mpz_tdiv_r_2exp (mx div ?Y) WANTED_BITS = mx div ?Y mod 2 ^ WANTED_BITS"
    using q by (cases "mx div ?Y = 0") (simp_all add: mpz_tdiv_r_2exp_def sgn_if)
  show ?thesis
    by (cases quo)
      (simp_all add: rem1_le_def Let_def mpz_mul_2exp_def t mpz_fdiv_qr_def m mpz_tstbit_def
        mpz_get_si_def bit_0)
qed

lemma rem1_gt_props_quo:
  assumes "0 \<le> mx" "0 < my"
  shows "rem1_gt (Some v) rnd_q mx my e =
     (my, (mx * 2 ^ e) mod my,
      (word_of_int ((mx * 2 ^ e) div my mod 2 ^ WANTED_BITS) :: 64 word) AND 1 \<noteq> 0,
      Some (word_of_int ((mx * 2 ^ e) div my mod 2 ^ WANTED_BITS)))"
proof -
  let ?M = "my * 2 ^ WANTED_BITS"
  let ?X = "mx * 2 ^ e"
  have M: "0 < ?M" using assms(2) by simp
  have r0: "mpz_mod (mpz_powm_ui 2 e ?M * mx) ?M = ?X mod ?M"
    using M by (simp add: mpz_mod_def mpz_powm_ui_def mod_mult_right_eq mult.commute)
  have d: "mpz_div_2exp ?M WANTED_BITS = my"
    by (simp add: mpz_div_2exp_def)
  have nn: "0 \<le> ?X mod ?M" using M by (rule pos_mod_sign)
  have t: "mpz_tdiv_qr (?X mod ?M) my = (?X mod ?M div my, ?X mod ?M mod my)"
    using nn assms(2) by (rule tdiv_nonneg)
  have a: "?X mod ?M mod my = ?X mod my"
    by (rule mod_mod_cancel) simp
  have b: "?X mod ?M div my = ?X div my mod 2 ^ WANTED_BITS"
    using assms(2) by (simp add: zmod_zmult2_eq)
  show ?thesis
    by (simp add: rem1_gt_def Let_def mpz_mul_2exp_def r0 d t a b mpz_get_si_def)
qed

lemma rem1_gt_props_none:
  assumes "0 \<le> mx" "0 < my"
  shows "rem1_gt None rnd_q mx my e =
     (my,
      (if rnd_q = MPFR_RNDN then (mx * 2 ^ e) mod my else (mx * 2 ^ e) mod (2 * my)),
      rnd_q = MPFR_RNDN \<and> my \<le> (mx * 2 ^ e) mod (2 * my),
      None)"
proof -
  let ?M = "my * 2"
  let ?X = "mx * 2 ^ e"
  have M: "0 < ?M" using assms(2) by simp
  have r0: "mpz_mod (mpz_powm_ui 2 e ?M * mx) ?M = ?X mod (2 * my)"
    using M by (simp add: mpz_mod_def mpz_powm_ui_def mod_mult_right_eq mult.commute)
  have d: "mpz_div_2exp ?M (Suc 0) = my"
    by (simp add: mpz_div_2exp_def)
  have nn: "0 \<le> ?X mod (2 * my)" "?X mod (2 * my) < 2 * my" using assms(2) by simp_all
  have c: "(0 \<le> mpz_cmpabs (?X mod (2 * my)) my) = (my \<le> ?X mod (2 * my))"
    using nn assms(2) by (auto simp: mpz_cmpabs_def sgn_if)
  have e: "?X mod (2 * my) = my * (?X div my mod 2) + ?X mod my"
    by (simp add: zmod_zmult2_eq mult.commute)
  have lt: "?X mod my < my" using assms(2) by (rule pos_mod_bound)
  have ge: "0 \<le> ?X mod my" using assms(2) by (rule pos_mod_sign)
  have s: "(if my \<le> ?X mod (2 * my) then ?X mod (2 * my) - my else ?X mod (2 * my)) = ?X mod my"
  proof (cases "?X div my mod 2 = 0")
    case True
    with e have "?X mod (2 * my) = ?X mod my" by simp
    with lt show ?thesis by simp
  next
    case False
    then have "?X div my mod 2 = 1" by presburger
    with e have "?X mod (2 * my) = my + ?X mod my" by simp
    with ge show ?thesis by simp
  qed
  show ?thesis
    using s by (auto simp add: rem1_gt_def Let_def mpz_mul_2exp_def r0 d c split: if_splits)
qed

lemma rem1_exact_le:
  assumes "my \<noteq> 0" "ex \<le> ey + int (mpz_scan1 \<bar>my\<bar>)"
  shows "rem1_exact quo rnd_q mx ex my ey =
    (let Ys = mpz_div_2exp \<bar>my\<bar> (mpz_scan1 \<bar>my\<bar>) * 2 ^ nat (ey + int (mpz_scan1 \<bar>my\<bar>) - ex);
         r0 = \<bar>mx\<bar> mod Ys;
         quo0 = map_option (\<lambda>_. word_of_int (\<bar>mx\<bar> div Ys mod 2 ^ WANTED_BITS)) quo;
         rq = (if r0 = 0 then (r0, quo0)
               else rem1_nearest rnd_q Ys r0 (rnd_q = MPFR_RNDN \<and> odd (\<bar>mx\<bar> div Ys)) quo0)
     in (fst rq, ex, snd rq))"
proof -
  have Y: "0 < mpz_div_2exp \<bar>my\<bar> (mpz_scan1 \<bar>my\<bar>)" using scan1_int(2) [OF assms(1)] .
  have X: "0 \<le> \<bar>mx\<bar>" by simp
  have n: "\<not> ey + int (mpz_scan1 \<bar>my\<bar>) < ex" using assms(2) by simp
  show ?thesis
    unfolding rem1_exact_def rem1_reduce_def mpz_abs_def Let_def
    by (simp only: assms(2) n if_True if_False rem1_le_props [OF X Y] prod.case fst_conv snd_conv
        split: prod.splits) (simp split: prod.splits)
qed

lemma rem1_exact_gt_quo:
  assumes "my \<noteq> 0" "\<not> ex \<le> ey + int (mpz_scan1 \<bar>my\<bar>)"
  shows "rem1_exact (Some v) rnd_q mx ex my ey =
    (let Y = mpz_div_2exp \<bar>my\<bar> (mpz_scan1 \<bar>my\<bar>);
         X = \<bar>mx\<bar> * 2 ^ nat (ex - (ey + int (mpz_scan1 \<bar>my\<bar>)));
         r0 = X mod Y;
         w = (word_of_int (X div Y mod 2 ^ WANTED_BITS) :: 64 word);
         rq = (if r0 = 0 then (r0, Some w)
               else rem1_nearest rnd_q Y r0 (w AND 1 \<noteq> 0) (Some w))
     in (fst rq, ey + int (mpz_scan1 \<bar>my\<bar>), snd rq))"
proof -
  have Y: "0 < mpz_div_2exp \<bar>my\<bar> (mpz_scan1 \<bar>my\<bar>)" using scan1_int(2) [OF assms(1)] .
  have X: "0 \<le> \<bar>mx\<bar>" by simp
  have n: "ey + int (mpz_scan1 \<bar>my\<bar>) < ex" using assms(2) by simp
  show ?thesis
    unfolding rem1_exact_def rem1_reduce_def mpz_abs_def Let_def
    by (simp only: assms(2) n if_True if_False rem1_gt_props_quo [OF X Y] prod.case fst_conv
        snd_conv) (simp split: prod.splits)
qed

lemma rem1_exact_gt_none:
  assumes "my \<noteq> 0" "\<not> ex \<le> ey + int (mpz_scan1 \<bar>my\<bar>)"
  shows "rem1_exact None rnd_q mx ex my ey =
    (let Y = mpz_div_2exp \<bar>my\<bar> (mpz_scan1 \<bar>my\<bar>);
         X = \<bar>mx\<bar> * 2 ^ nat (ex - (ey + int (mpz_scan1 \<bar>my\<bar>)));
         r0 = (if rnd_q = MPFR_RNDN then X mod Y else X mod (2 * Y));
         rq = (if r0 = 0 then (r0, None)
               else rem1_nearest rnd_q Y r0 (rnd_q = MPFR_RNDN \<and> Y \<le> X mod (2 * Y)) None)
     in (fst rq, ey + int (mpz_scan1 \<bar>my\<bar>), snd rq))"
proof -
  have Y: "0 < mpz_div_2exp \<bar>my\<bar> (mpz_scan1 \<bar>my\<bar>)" using scan1_int(2) [OF assms(1)] .
  have X: "0 \<le> \<bar>mx\<bar>" by simp
  have n: "ey + int (mpz_scan1 \<bar>my\<bar>) < ex" using assms(2) by simp
  show ?thesis
    unfolding rem1_exact_def rem1_reduce_def mpz_abs_def Let_def
    by (simp only: assms(2) n if_True if_False rem1_gt_props_none [OF X Y] prod.case fst_conv
        snd_conv) (simp split: prod.splits)
qed

lemma fst_if_nearest_RNDZ:
  "fst (if r0 = 0 then (r0, q0) else rem1_nearest MPFR_RNDZ Y r0 qo q0) = r0"
  by (simp add: rem1_nearest_RNDZ)

lemma rem1_exact_RNDZ_nonneg:
  assumes "my \<noteq> 0"
  shows "0 \<le> fst (rem1_exact quo MPFR_RNDZ mx ex my ey)"
proof -
  let ?k = "mpz_scan1 \<bar>my\<bar>"
  let ?Y = "mpz_div_2exp \<bar>my\<bar> ?k"
  have Y: "0 < ?Y" using scan1_int(2) [OF assms(1)] .
  have Z: "(MPFR_RNDZ = MPFR_RNDN) = False" by simp
  show ?thesis
  proof (cases "ex \<le> ey + int ?k")
    case True
    have "0 < ?Y * 2 ^ nat (ey + int ?k - ex)" using Y by simp
    then have "0 \<le> \<bar>mx\<bar> mod (?Y * 2 ^ nat (ey + int ?k - ex))" by (rule pos_mod_sign)
    then show ?thesis
      by (simp only: rem1_exact_le [OF assms True] Let_def fst_conv fst_if_nearest_RNDZ)
  next
    case False
    have a: "0 \<le> \<bar>mx\<bar> * 2 ^ nat (ex - (ey + int ?k)) mod ?Y" using Y by (rule pos_mod_sign)
    have "0 < 2 * ?Y" using Y by simp
    then have b: "0 \<le> \<bar>mx\<bar> * 2 ^ nat (ex - (ey + int ?k)) mod (2 * ?Y)" by (rule pos_mod_sign)
    show ?thesis
    proof (cases quo)
      case None
      with b show ?thesis
        by (simp only: rem1_exact_gt_none [OF assms False] Let_def fst_conv fst_if_nearest_RNDZ
            Z if_False)
    next
      case (Some v)
      with a show ?thesis
        by (simp only: rem1_exact_gt_quo [OF assms False] Let_def fst_conv fst_if_nearest_RNDZ)
    qed
  qed
qed

lemma abs_my_val:
  assumes "my \<noteq> 0"
  shows "\<bar>of_int my\<bar> * two_pow ey
         = of_int (mpz_div_2exp \<bar>my\<bar> (mpz_scan1 \<bar>my\<bar>)) * two_pow (ey + int (mpz_scan1 \<bar>my\<bar>))"
proof -
  have "(of_int \<bar>my\<bar> :: rat) = of_int (mpz_div_2exp \<bar>my\<bar> (mpz_scan1 \<bar>my\<bar>) * 2 ^ mpz_scan1 \<bar>my\<bar>)"
    using scan1_int(1) [OF assms(1)] by simp
  then have "\<bar>of_int my :: rat\<bar> = of_int (mpz_div_2exp \<bar>my\<bar> (mpz_scan1 \<bar>my\<bar>)) * 2 ^ mpz_scan1 \<bar>my\<bar>"
    by simp
  then show ?thesis by (simp add: two_pow_add two_pow_nat mult.assoc mult.left_commute mult.commute)
qed

lemma nearest_or_zero_bound:
  assumes "0 \<le> r0" "r0 < Y"
  shows "2 * \<bar>fst (if r0 = 0 then (r0, q0) else rem1_nearest MPFR_RNDN Y r0 qo q0)\<bar> \<le> Y"
  using rem1_nearest_bound [OF assms, of qo q0] assms by (simp split: if_splits)

lemma rem1_exact_RNDN_bound:
  assumes "my \<noteq> 0" "rem1_exact quo MPFR_RNDN mx ex my ey = (r, e, q)"
  shows "2 * \<bar>of_int r\<bar> * two_pow e \<le> \<bar>of_int my\<bar> * two_pow ey"
proof -
  let ?k = "mpz_scan1 \<bar>my\<bar>"
  let ?Y = "mpz_div_2exp \<bar>my\<bar> ?k"
  have Y: "0 < ?Y" using scan1_int(2) [OF assms(1)] .
  have r: "r = fst (rem1_exact quo MPFR_RNDN mx ex my ey)"
    and e: "e = fst (snd (rem1_exact quo MPFR_RNDN mx ex my ey))"
    using assms(2) by simp_all
  have N: "(MPFR_RNDN = MPFR_RNDN) = True" by simp
  have key: "\<exists>Z. 2 * \<bar>r\<bar> \<le> Z \<and> of_int Z * two_pow e = of_int ?Y * two_pow (ey + int ?k)"
  proof (cases "ex \<le> ey + int ?k")
    case True
    let ?sh = "nat (ey + int ?k - ex)"
    let ?Ys = "?Y * 2 ^ ?sh"
    have Ys: "0 < ?Ys" using Y by simp
    have r0: "0 \<le> \<bar>mx\<bar> mod ?Ys" "\<bar>mx\<bar> mod ?Ys < ?Ys"
      using Ys by (rule pos_mod_sign, rule pos_mod_bound)
    have e': "e = ex"
      unfolding e by (simp only: rem1_exact_le [OF assms(1) True] Let_def fst_conv snd_conv)
    have r': "2 * \<bar>r\<bar> \<le> ?Ys"
      unfolding r using nearest_or_zero_bound [OF r0]
      by (simp only: rem1_exact_le [OF assms(1) True] Let_def fst_conv snd_conv)
    have "(of_int ?Ys :: rat) * two_pow ex = of_int ?Y * two_pow (ey + int ?k)"
      using two_pow_diff_nat [OF True] by simp
    with r' e' show ?thesis by blast
  next
    case False
    let ?X = "\<bar>mx\<bar> * 2 ^ nat (ex - (ey + int ?k))"
    have r0: "0 \<le> ?X mod ?Y" "?X mod ?Y < ?Y"
      using Y by (rule pos_mod_sign, rule pos_mod_bound)
    have "e = ey + int ?k \<and> 2 * \<bar>r\<bar> \<le> ?Y"
    proof (cases quo)
      case None
      have "e = ey + int ?k"
        unfolding e None
        by (simp only: rem1_exact_gt_none [OF assms(1) False] Let_def fst_conv snd_conv)
      moreover have "2 * \<bar>r\<bar> \<le> ?Y"
        unfolding r None using nearest_or_zero_bound [OF r0]
        by (simp only: rem1_exact_gt_none [OF assms(1) False] Let_def fst_conv snd_conv N if_True)
      ultimately show ?thesis by simp
    next
      case (Some v)
      have "e = ey + int ?k"
        unfolding e Some
        by (simp only: rem1_exact_gt_quo [OF assms(1) False] Let_def fst_conv snd_conv)
      moreover have "2 * \<bar>r\<bar> \<le> ?Y"
        unfolding r Some using nearest_or_zero_bound [OF r0]
        by (simp only: rem1_exact_gt_quo [OF assms(1) False] Let_def fst_conv snd_conv)
      ultimately show ?thesis by simp
    qed
    then show ?thesis by blast
  qed
  then obtain Z where Z: "2 * \<bar>r\<bar> \<le> Z"
    "of_int Z * two_pow e = of_int ?Y * two_pow (ey + int ?k)" by blast
  from Z(1) have "(of_int (2 * \<bar>r\<bar>) :: rat) \<le> of_int Z" by (simp only: of_int_le_iff)
  then have "2 * \<bar>of_int r :: rat\<bar> \<le> of_int Z" by simp
  then have "2 * \<bar>of_int r :: rat\<bar> * two_pow e \<le> of_int Z * two_pow e"
    by (rule mult_right_mono) (simp add: less_imp_le)
  then show ?thesis by (simp only: Z(2) abs_my_val [OF assms(1)])
qed

lemma round_raw_exp_pos:
  assumes "0 < m" "round_raw p rnd neg m = (d, e, i)"
  shows "1 \<le> e"
proof -
  have "0 < nbits m" using assms(1) by (simp add: nbits_pos)
  with assms(2) show ?thesis
    by (auto simp: round_raw_def Let_def split: if_splits)
qed

lemma round_raw_inex0:
  assumes "round_raw p rnd neg m = (d, e, 0)"
  shows "of_nat d * two_pow (e - int p) = of_nat m"
proof (cases "nbits m \<le> p")
  case True
  with assms have d: "d = m * 2 ^ (p - nbits m)" and e: "e = int (nbits m)"
    by (simp_all add: round_raw_exact)
  have "int (nbits m) - int p + int (p - nbits m) = 0" using True by simp
  then have "two_pow (int (nbits m) - int p) * two_pow (int (p - nbits m)) = 1"
    by (simp only: two_pow_add [symmetric] two_pow_0)
  then have "two_pow (int (nbits m) - int p) * 2 ^ (p - nbits m) = 1"
    by (simp only: two_pow_nat)
  then show ?thesis by (simp add: d e mult.assoc mult.commute)
next
  case False
  let ?sh = "nbits m - p"
  from assms False have lo: "m mod 2 ^ ?sh = 0" and d: "d = m div 2 ^ ?sh" and e: "e = int (nbits m)"
    by (auto simp: round_raw_def Let_def split: if_splits)
  from lo have "m = (m div 2 ^ ?sh) * 2 ^ ?sh" by auto
  then have "(of_nat m :: rat) = of_nat (m div 2 ^ ?sh) * 2 ^ ?sh"
    by (metis of_nat_mult of_nat_numeral of_nat_power)
  moreover have "two_pow (int (nbits m) - int p) = 2 ^ ?sh"
    using False by (simp add: two_pow_def nat_diff_distrib)
  ultimately show ?thesis by (simp add: d e)
qed

text \<open>The remainder before the sign of x is put back (rem1.c lines 172-196).\<close>

lemma rem1_store_zero:
  "mpfr_set_ui rem 0 MPFR_RNDN = (rem\<lparr>mpfr_sign := 1, mpfr_exp := MPFR_EXP_ZERO\<rparr>, 0)"
  by (simp add: mpfr_set_ui_def mpfr_set_z_def)

lemma rem1_store_nonzero:
  assumes "r \<noteq> 0" "MPFR_EXP_INF \<le> e"
    and "(let (rem, inex) = mpfr_set_z rem r rnd in (rem\<lparr>mpfr_exp := mpfr_exp rem + e\<rparr>, inex)) = (R, i)"
  shows "mpfr_sign R = sgn r" and "MPFR_EXP_INF < mpfr_exp R" and "mpfr_prec R = mpfr_prec rem"
    and "i = 0 \<Longrightarrow> of_nat (mpfr_d R) * two_pow (mpfr_exp R - int (mpfr_prec R)) = \<bar>of_int r\<bar> * two_pow e"
proof -
  obtain d e1 i1 where rr: "round_raw (mpfr_prec rem) rnd (r < 0) (nat \<bar>r\<bar>) = (d, e1, i1)"
    by (cases "round_raw (mpfr_prec rem) rnd (r < 0) (nat \<bar>r\<bar>)") auto
  from assms(1,3) rr have R: "R = rem\<lparr>mpfr_sign := sgn r, mpfr_exp := e1 + e, mpfr_d := d\<rparr>"
    and i: "i = i1"
    by (auto simp: mpfr_set_z_def Let_def)
  have pos: "0 < nat \<bar>r\<bar>" using assms(1) by simp
  from round_raw_exp_pos [OF pos rr] have e1: "1 \<le> e1" .
  show "mpfr_sign R = sgn r" by (simp add: R)
  show "MPFR_EXP_INF < mpfr_exp R" using e1 assms(2) by (simp add: R)
  show "mpfr_prec R = mpfr_prec rem" by (simp add: R)
  assume "i = 0"
  with i rr have "round_raw (mpfr_prec rem) rnd (r < 0) (nat \<bar>r\<bar>) = (d, e1, 0)" by simp
  from round_raw_inex0 [OF this]
  have "(of_nat d :: rat) * two_pow (e1 - int (mpfr_prec rem)) = of_nat (nat \<bar>r\<bar>)" .
  then have "(of_nat d :: rat) * two_pow (e1 - int (mpfr_prec rem)) * two_pow e = \<bar>of_int r\<bar> * two_pow e"
    by simp
  moreover have "two_pow (e1 + e - int (mpfr_prec rem)) = two_pow (e1 - int (mpfr_prec rem)) * two_pow e"
    using two_pow_add [of "e1 - int (mpfr_prec rem)" e] by (simp add: algebra_simps)
  ultimately show "of_nat (mpfr_d R) * two_pow (mpfr_exp R - int (mpfr_prec R)) = \<bar>of_int r\<bar> * two_pow e"
    by (simp add: R mult.assoc)
qed

lemma regular_sign: "mpfr_regular x \<Longrightarrow> mpfr_sign x = 1 \<or> mpfr_sign x = - 1"
  by (simp add: mpfr_regular_def)

lemma regular_d_pos: "mpfr_regular x \<Longrightarrow> 0 < mpfr_d x"
  by (auto simp: mpfr_regular_def intro: less_le_trans [of 0 "2 ^ (mpfr_prec x - 1)"])

lemma regular_mz: "mpfr_regular x \<Longrightarrow> mpfr_sign x * int (mpfr_d x) \<noteq> 0"
  using regular_sign [of x] regular_d_pos [of x] by auto

lemma regular_abs_val:
  "mpfr_regular x \<Longrightarrow>
   \<bar>mpfr_val x\<bar> = \<bar>of_int (mpfr_sign x * int (mpfr_d x))\<bar> * two_pow (mpfr_exp x - int (mpfr_prec x))"
  using regular_not_singular [of x]
  by (simp add: mpfr_val_def abs_mult less_imp_le)

lemma rem1_reduce_range:
  assumes "my \<noteq> 0"
  shows "0 \<le> fst (snd (rem1_reduce quo rnd_q mx ex my ey))"
    and "rnd_q = MPFR_RNDN \<Longrightarrow>
         fst (snd (rem1_reduce quo rnd_q mx ex my ey)) < fst (rem1_reduce quo rnd_q mx ex my ey)"
proof -
  let ?k = "mpz_scan1 \<bar>my\<bar>"
  let ?Y = "mpz_div_2exp \<bar>my\<bar> ?k"
  have Y: "0 < ?Y" using scan1_int(2) [OF assms(1)] .
  have X: "0 \<le> \<bar>mx\<bar>" by simp
  have Y2: "0 < 2 * ?Y" using Y by simp
  have Ys: "0 < ?Y * 2 ^ n" for n using Y by simp
  note pm = pos_mod_sign pos_mod_bound
  have "0 \<le> fst (snd (rem1_reduce quo rnd_q mx ex my ey))
     \<and> (rnd_q = MPFR_RNDN \<longrightarrow>
         fst (snd (rem1_reduce quo rnd_q mx ex my ey)) < fst (rem1_reduce quo rnd_q mx ex my ey))"
  proof (cases "ex \<le> ey + int ?k")
    case True
    then show ?thesis
      unfolding rem1_reduce_def mpz_abs_def Let_def
      by (simp only: if_True rem1_le_props [OF X Y] prod.case fst_conv snd_conv pm [OF Ys] simp_thms)
  next
    case False
    show ?thesis
    proof (cases quo)
      case None
      show ?thesis
        unfolding rem1_reduce_def mpz_abs_def Let_def None
        by (simp only: False if_False rem1_gt_props_none [OF X Y] prod.case fst_conv snd_conv)
          (simp add: pm [OF Y] pm [OF Y2])
    next
      case (Some v)
      show ?thesis
        unfolding rem1_reduce_def mpz_abs_def Let_def Some
        by (simp only: False if_False rem1_gt_props_quo [OF X Y] prod.case fst_conv snd_conv
            pm [OF Y] simp_thms)
    qed
  qed
  then show "0 \<le> fst (snd (rem1_reduce quo rnd_q mx ex my ey))"
    and "rnd_q = MPFR_RNDN \<Longrightarrow>
         fst (snd (rem1_reduce quo rnd_q mx ex my ey)) < fst (rem1_reduce quo rnd_q mx ex my ey)"
    by simp_all
qed

lemma rem1_nearest_nonzero:
  assumes "r0 \<noteq> 0" "rnd_q = MPFR_RNDN \<Longrightarrow> 0 \<le> r0 \<and> r0 < Y"
  shows "fst (rem1_nearest rnd_q Y r0 qo q) \<noteq> 0"
  using assms
  by (auto simp: rem1_nearest_def Let_def mpz_mul_2exp_def mpz_div_2exp_def)

text \<open>On regular operands \<^verbatim>\<open>mpfr_rem1\<close> rounds and signs the exact remainder.\<close>

lemma mpfr_rem1_regular:
  assumes "mpfr_regular x" "mpfr_regular y"
  shows "mpfr_rem1 rem quo rnd_q x y rnd =
    (let E = rem1_exact quo rnd_q (mpfr_sign x * int (mpfr_d x)) (mpfr_exp x - int (mpfr_prec x))
               (mpfr_sign y * int (mpfr_d y)) (mpfr_exp y - int (mpfr_prec y));
         S = rem1_store rem (fst E) (fst (snd E)) rnd;
         quo2 = map_option (\<lambda>q. q * word_of_int (if mpfr_sign x = mpfr_sign y then 1 else - 1))
                  (snd (snd E))
     in if mpfr_sign x < 0 then (fst (mpfr_neg (fst S) (fst S) MPFR_RNDN), quo2, - snd S)
        else (fst S, quo2, snd S))"
proof -
  let ?mx = "mpfr_sign x * int (mpfr_d x)" and ?ex = "mpfr_exp x - int (mpfr_prec x)"
  let ?my = "mpfr_sign y * int (mpfr_d y)" and ?ey = "mpfr_exp y - int (mpfr_prec y)"
  obtain Y r0 qo q0 ey' where red: "rem1_reduce quo rnd_q ?mx ?ex ?my ?ey = (Y, r0, qo, q0, ey')"
    by (cases "rem1_reduce quo rnd_q ?mx ?ex ?my ?ey") auto
  have my: "?my \<noteq> 0" by (rule regular_mz [OF assms(2)])
  from rem1_reduce_range [OF my, where quo = quo and rnd_q = rnd_q and mx = ?mx and ex = ?ex and ey = ?ey] red
  have rg: "0 \<le> r0" "rnd_q = MPFR_RNDN \<Longrightarrow> r0 < Y" by simp_all
  obtain r1 q1 where nr: "rem1_nearest rnd_q Y r0 qo q0 = (r1, q1)"
    by (cases "rem1_nearest rnd_q Y r0 qo q0") auto
  have nz: "r0 \<noteq> 0 \<Longrightarrow> r1 \<noteq> 0"
    using rem1_nearest_nonzero [of r0 rnd_q Y qo q0] rg nr by simp
  note ns = regular_not_singular [OF assms(1)] regular_not_singular [OF assms(2)]
  show ?thesis
  proof (cases "r0 = 0")
    case True
    with ns red show ?thesis
      by (simp add: mpfr_rem1_def rem1_exact_def rem1_store_def mpfr_get_z_exp_def Let_def
          split: prod.splits)
  next
    case False
    with ns red nr nz show ?thesis
      by (simp add: mpfr_rem1_def rem1_exact_def rem1_store_def mpfr_get_z_exp_def Let_def
          split: prod.splits)
  qed
qed

lemma rem1_exact_scale:
  "fst (snd (rem1_exact quo rnd_q mx ex my ey)) = min ex (ey + int (mpz_scan1 \<bar>my\<bar>))"
  by (simp add: rem1_exact_def rem1_reduce_def Let_def mpz_abs_def min_def split: prod.splits)

lemma rem1_exact_scale_range:
  assumes "MPFR_EXP_INF \<le> ex" "MPFR_EXP_INF \<le> ey"
  shows "MPFR_EXP_INF \<le> fst (snd (rem1_exact quo rnd_q mx ex my ey))"
  using assms by (simp add: rem1_exact_scale min_def)

lemma neg_in_place:
  "\<not> MPFR_IS_NAN R \<Longrightarrow> fst (mpfr_neg R R rnd) = MPFR_CHANGE_SIGN R"
  by (simp add: mpfr_neg_def)

text \<open>The stored remainder of rem1.c lines 172-196, before the sign of x is put back.\<close>

lemma rem1_stored:
  assumes "MPFR_EXP_INF \<le> e"
    and "rem1_store rem r e rnd = (R, i)"
  shows "\<not> MPFR_IS_NAN R" and "0 \<le> r \<Longrightarrow> mpfr_sign R = 1"
    and "i = 0 \<Longrightarrow> \<bar>mpfr_val R\<bar> = \<bar>of_int r\<bar> * two_pow e"
proof -
  have "\<not> MPFR_IS_NAN R \<and> (0 \<le> r \<longrightarrow> mpfr_sign R = 1)
     \<and> (i = 0 \<longrightarrow> \<bar>mpfr_val R\<bar> = \<bar>of_int r\<bar> * two_pow e)"
  proof (cases "r = 0")
    case True
    with assms(2) have "R = rem\<lparr>mpfr_sign := 1, mpfr_exp := MPFR_EXP_ZERO\<rparr>"
      by (simp add: rem1_store_def rem1_store_zero)
    with True show ?thesis
      by (simp add: MPFR_IS_NAN_def mpfr_val_def MPFR_IS_ZERO_def sentinels_distinct)
  next
    case False
    with assms(2)
    have st: "(let (rem, inex) = mpfr_set_z rem r rnd in (rem\<lparr>mpfr_exp := mpfr_exp rem + e\<rparr>, inex)) = (R, i)"
      by (simp add: rem1_store_def)
    note f = rem1_store_nonzero [OF False assms(1) st]
    have nn: "\<not> MPFR_IS_NAN R" "\<not> MPFR_IS_ZERO R"
      using f(2) sentinels_distinct by (auto simp: MPFR_IS_NAN_def MPFR_IS_ZERO_def)
    have sg: "mpfr_sign R = 1 \<or> mpfr_sign R = - 1"
      using f(1) False by (simp add: sgn_if)
    have "i = 0 \<Longrightarrow> \<bar>mpfr_val R\<bar> = \<bar>of_int r\<bar> * two_pow e"
    proof -
      assume "i = 0"
      from f(4) [OF this]
      have v: "of_nat (mpfr_d R) * two_pow (mpfr_exp R - int (mpfr_prec R)) = \<bar>of_int r\<bar> * two_pow e" .
      have "\<bar>mpfr_val R\<bar> = of_nat (mpfr_d R) * two_pow (mpfr_exp R - int (mpfr_prec R))"
        using nn(2) sg by (auto simp: mpfr_val_def abs_mult less_imp_le)
      with v show ?thesis by simp
    qed
    moreover have "0 \<le> r \<longrightarrow> mpfr_sign R = 1" using f(1) False by (simp add: sgn_if)
    ultimately show ?thesis using nn(1) by blast
  qed
  then show "\<not> MPFR_IS_NAN R" and "0 \<le> r \<Longrightarrow> mpfr_sign R = 1"
    and "i = 0 \<Longrightarrow> \<bar>mpfr_val R\<bar> = \<bar>of_int r\<bar> * two_pow e"
    by simp_all
qed

lemma change_sign_val: "\<bar>mpfr_val (MPFR_CHANGE_SIGN R)\<bar> = \<bar>mpfr_val R\<bar>"
  by (simp add: mpfr_val_def MPFR_CHANGE_SIGN_def MPFR_IS_ZERO_def abs_mult)

lemma fmod_sign:
  assumes "mpfr_regular x" "mpfr_regular y" "mpfr_in_range x" "mpfr_in_range y"
  shows "mpfr_sign (fst (mpfr_fmod rem x y rnd)) = mpfr_sign x"
proof -
  let ?mx = "mpfr_sign x * int (mpfr_d x)" and ?ex = "mpfr_exp x - int (mpfr_prec x)"
  let ?my = "mpfr_sign y * int (mpfr_d y)" and ?ey = "mpfr_exp y - int (mpfr_prec y)"
  let ?E = "rem1_exact None MPFR_RNDZ ?mx ?ex ?my ?ey"
  let ?S = "rem1_store rem (fst ?E) (fst (snd ?E)) rnd"
  obtain R i where S: "?S = (R, i)" by (cases ?S) auto
  have my: "?my \<noteq> 0" by (rule regular_mz [OF assms(2)])
  have r: "0 \<le> fst ?E" by (rule rem1_exact_RNDZ_nonneg [OF my])
  have e: "MPFR_EXP_INF \<le> fst (snd ?E)"
    using assms(3,4) by (intro rem1_exact_scale_range) (simp_all add: mpfr_in_range_def)
  note st = rem1_stored [OF e S]
  have "fst (mpfr_fmod rem x y rnd) = (if mpfr_sign x < 0 then fst (mpfr_neg R R MPFR_RNDN) else R)"
    unfolding mpfr_fmod_def mpfr_rem1_regular [OF assms(1,2)] Let_def S by simp
  also have "\<dots> = (if mpfr_sign x < 0 then MPFR_CHANGE_SIGN R else R)"
    by (simp add: neg_in_place [OF st(1)])
  finally show ?thesis
    using st(2) [OF r] regular_sign [OF assms(1)] by (auto simp: MPFR_CHANGE_SIGN_def)
qed

lemma remainder_exact_bound:
  assumes "mpfr_regular x" "mpfr_regular y"
    and "rem1_exact quo MPFR_RNDN (fst (mpfr_get_z_exp x)) (snd (mpfr_get_z_exp x))
           (fst (mpfr_get_z_exp y)) (snd (mpfr_get_z_exp y)) = (r, e, q)"
  shows "2 * (\<bar>of_int r\<bar> * two_pow e) \<le> \<bar>mpfr_val y\<bar>"
proof -
  have my: "mpfr_sign y * int (mpfr_d y) \<noteq> 0" by (rule regular_mz [OF assms(2)])
  from assms(3) have "rem1_exact quo MPFR_RNDN (mpfr_sign x * int (mpfr_d x))
      (mpfr_exp x - int (mpfr_prec x)) (mpfr_sign y * int (mpfr_d y))
      (mpfr_exp y - int (mpfr_prec y)) = (r, e, q)"
    by (simp add: mpfr_get_z_exp_def)
  from rem1_exact_RNDN_bound [OF my this] show ?thesis
    by (simp only: regular_abs_val [OF assms(2)] mult.assoc)
qed

lemma remainder_returned_bound:
  assumes "mpfr_regular x" "mpfr_regular y" "mpfr_in_range x" "mpfr_in_range y"
    and "snd (snd (mpfr_rem1 rem quo MPFR_RNDN x y rnd)) = 0"
  shows "2 * \<bar>mpfr_val (fst (mpfr_rem1 rem quo MPFR_RNDN x y rnd))\<bar> \<le> \<bar>mpfr_val y\<bar>"
proof -
  let ?mx = "mpfr_sign x * int (mpfr_d x)" and ?ex = "mpfr_exp x - int (mpfr_prec x)"
  let ?my = "mpfr_sign y * int (mpfr_d y)" and ?ey = "mpfr_exp y - int (mpfr_prec y)"
  let ?E = "rem1_exact quo MPFR_RNDN ?mx ?ex ?my ?ey"
  let ?S = "rem1_store rem (fst ?E) (fst (snd ?E)) rnd"
  obtain R i where S: "?S = (R, i)" by (cases ?S) auto
  have e: "MPFR_EXP_INF \<le> fst (snd ?E)"
    using assms(3,4) by (intro rem1_exact_scale_range) (simp_all add: mpfr_in_range_def)
  note st = rem1_stored [OF e S]
  have res: "fst (mpfr_rem1 rem quo MPFR_RNDN x y rnd)
             = (if mpfr_sign x < 0 then fst (mpfr_neg R R MPFR_RNDN) else R)"
    and inex: "snd (snd (mpfr_rem1 rem quo MPFR_RNDN x y rnd)) = (if mpfr_sign x < 0 then - i else i)"
    unfolding mpfr_rem1_regular [OF assms(1,2)] Let_def S by simp_all
  from inex assms(5) have i: "i = 0" by (simp split: if_splits)
  have "\<bar>mpfr_val (fst (mpfr_rem1 rem quo MPFR_RNDN x y rnd))\<bar> = \<bar>mpfr_val R\<bar>"
    by (simp add: res neg_in_place [OF st(1)] change_sign_val)
  also have "\<dots> = \<bar>of_int (fst ?E)\<bar> * two_pow (fst (snd ?E))" by (rule st(3) [OF i])
  finally have v: "\<bar>mpfr_val (fst (mpfr_rem1 rem quo MPFR_RNDN x y rnd))\<bar>
      = \<bar>of_int (fst ?E)\<bar> * two_pow (fst (snd ?E))" .
  have "rem1_exact quo MPFR_RNDN (fst (mpfr_get_z_exp x)) (snd (mpfr_get_z_exp x))
           (fst (mpfr_get_z_exp y)) (snd (mpfr_get_z_exp y)) = (fst ?E, fst (snd ?E), snd (snd ?E))"
    by (simp add: mpfr_get_z_exp_def)
  from remainder_exact_bound [OF assms(1,2) this] show ?thesis by (simp only: v)
qed

lemma snd_nearest_cases:
  "snd (if r0 = 0 then (r0, Some w) else rem1_nearest MPFR_RNDN Y r0 qo (Some w)) = Some w
   \<or> snd (if r0 = 0 then (r0, Some w) else rem1_nearest MPFR_RNDN Y r0 qo (Some w)) = Some (w + 1)"
  by (simp add: rem1_nearest_def Let_def)

lemma two_pow_nonzero [simp]: "two_pow e \<noteq> 0"
  by (simp add: two_pow_def)

lemma floor_scaled_le:
  assumes "0 < Y" "ex \<le> ey'"
  shows "\<lfloor>(of_int a * two_pow ex) / (of_int Y * two_pow ey' :: rat)\<rfloor> = a div (Y * 2 ^ nat (ey' - ex))"
proof -
  have "(of_int a * two_pow ex) / (of_int Y * two_pow ey' :: rat)
        = (of_int a * two_pow ex) / (of_int Y * (2 ^ nat (ey' - ex) * two_pow ex))"
    using two_pow_diff_nat [OF assms(2)] by simp
  also have "\<dots> = of_int a / (of_int Y * 2 ^ nat (ey' - ex))"
    by simp
  also have "\<dots> = of_int a / of_int (Y * 2 ^ nat (ey' - ex))" by simp
  finally show ?thesis by (simp only: floor_divide_of_int_eq)
qed

lemma floor_scaled_gt:
  assumes "0 < Y" "ey' \<le> ex"
  shows "\<lfloor>(of_int a * two_pow ex) / (of_int Y * two_pow ey' :: rat)\<rfloor> = (a * 2 ^ nat (ex - ey')) div Y"
proof -
  have "(of_int a * two_pow ex) / (of_int Y * two_pow ey' :: rat)
        = (of_int a * (2 ^ nat (ex - ey') * two_pow ey')) / (of_int Y * two_pow ey')"
    using two_pow_diff_nat [OF assms(2)] by simp
  also have "\<dots> = (of_int a * 2 ^ nat (ex - ey')) / of_int Y"
    by simp
  also have "\<dots> = of_int (a * 2 ^ nat (ex - ey')) / of_int Y" by simp
  finally show ?thesis by (simp only: floor_divide_of_int_eq)
qed

lemma rem1_exact_quo:
  fixes mx ex my ey :: int
  defines "Q \<equiv> \<lfloor>(\<bar>of_int mx\<bar> * two_pow ex) / (\<bar>of_int my\<bar> * two_pow ey :: rat)\<rfloor>"
  assumes "my \<noteq> 0"
  shows "snd (snd (rem1_exact (Some v) MPFR_RNDN mx ex my ey)) = Some (word_of_int (Q mod 2 ^ WANTED_BITS))
       \<or> snd (snd (rem1_exact (Some v) MPFR_RNDN mx ex my ey)) = Some (word_of_int (Q mod 2 ^ WANTED_BITS) + 1)"
proof -
  let ?k = "mpz_scan1 \<bar>my\<bar>"
  let ?Y = "mpz_div_2exp \<bar>my\<bar> ?k"
  note nz = assms(2)
  have Y: "0 < ?Y" using scan1_int(2) [OF nz] .
  have Q: "Q = \<lfloor>(of_int \<bar>mx\<bar> * two_pow ex) / (of_int ?Y * two_pow (ey + int ?k) :: rat)\<rfloor>"
    unfolding Q_def by (simp only: abs_my_val [OF nz] of_int_abs)
  show ?thesis
  proof (cases "ex \<le> ey + int ?k")
    case True
    have q: "Q = \<bar>mx\<bar> div (?Y * 2 ^ nat (ey + int ?k - ex))"
      unfolding Q by (rule floor_scaled_le [OF Y True])
    show ?thesis
      unfolding q
      by (simp only: rem1_exact_le [OF nz True] Let_def fst_conv snd_conv option.map
          snd_nearest_cases)
  next
    case False
    then have le: "ey + int ?k \<le> ex" by simp
    have q: "Q = (\<bar>mx\<bar> * 2 ^ nat (ex - (ey + int ?k))) div ?Y"
      unfolding Q by (rule floor_scaled_gt [OF Y le])
    show ?thesis
      unfolding q
      by (simp only: rem1_exact_gt_quo [OF nz False] Let_def fst_conv snd_conv
          snd_nearest_cases)
  qed
qed

lemma sint_small: "- (2 ^ 63) \<le> k \<Longrightarrow> k < 2 ^ 63 \<Longrightarrow> sint (word_of_int k :: 64 word) = k"
  by (simp add: sint_sbintrunc' signed_take_bit_int_eq_self)

lemma quo_signed:
  assumes "0 \<le> u" "u < 2 ^ 63" "s = 1 \<or> s = - 1"
  shows "sint ((word_of_int u :: 64 word) * word_of_int s) = u * s"
proof -
  have "(word_of_int u :: 64 word) * word_of_int s = word_of_int (u * s)" by simp
  moreover have "- (2 ^ 63) \<le> u * s" "u * s < 2 ^ 63" using assms by auto
  ultimately show ?thesis by (simp only: sint_small)
qed

lemma remquo_sign:
  assumes "mpfr_regular x" "mpfr_regular y"
    and "\<lfloor>\<bar>mpfr_val x\<bar> / \<bar>mpfr_val y\<bar>\<rfloor> mod 2 ^ 63 \<noteq> 2 ^ 63 - 1"
  shows "0 \<le> sint (fst (snd (mpfr_remquo rem v x y rnd))) * (mpfr_sign x * mpfr_sign y)"
proof -
  let ?mx = "mpfr_sign x * int (mpfr_d x)" and ?ex = "mpfr_exp x - int (mpfr_prec x)"
  let ?my = "mpfr_sign y * int (mpfr_d y)" and ?ey = "mpfr_exp y - int (mpfr_prec y)"
  let ?E = "rem1_exact (Some v) MPFR_RNDN ?mx ?ex ?my ?ey"
  let ?Q = "\<lfloor>\<bar>mpfr_val x\<bar> / \<bar>mpfr_val y\<bar>\<rfloor>"
  let ?s = "if mpfr_sign x = mpfr_sign y then 1 else - 1 :: int"
  have my: "?my \<noteq> 0" by (rule regular_mz [OF assms(2)])
  have Q: "?Q = \<lfloor>(\<bar>of_int ?mx\<bar> * two_pow ?ex) / (\<bar>of_int ?my\<bar> * two_pow ?ey :: rat)\<rfloor>"
    by (simp only: regular_abs_val [OF assms(1)] regular_abs_val [OF assms(2)])
  have m: "0 \<le> ?Q mod 2 ^ 63" "?Q mod 2 ^ 63 < 2 ^ 63" by simp_all
  with assms(3) have m2: "?Q mod 2 ^ 63 + 1 < 2 ^ 63" by linarith
  from rem1_exact_quo [OF my, where v = v and mx = ?mx and ex = ?ex and ey = ?ey]
  have "\<exists>u. 0 \<le> u \<and> u < 2 ^ 63 \<and> snd (snd ?E) = Some (word_of_int u)"
  proof
    assume "snd (snd ?E) = Some (word_of_int
        (\<lfloor>(\<bar>of_int ?mx\<bar> * two_pow ?ex) / (\<bar>of_int ?my\<bar> * two_pow ?ey :: rat)\<rfloor> mod 2 ^ WANTED_BITS))"
    then have "snd (snd ?E) = Some (word_of_int (?Q mod 2 ^ 63))"
      by (simp only: Q WANTED_BITS_def)
    with m show ?thesis by blast
  next
    assume "snd (snd ?E) = Some (word_of_int
        (\<lfloor>(\<bar>of_int ?mx\<bar> * two_pow ?ex) / (\<bar>of_int ?my\<bar> * two_pow ?ey :: rat)\<rfloor> mod 2 ^ WANTED_BITS) + 1)"
    then have "snd (snd ?E) = Some (word_of_int (?Q mod 2 ^ 63 + 1))"
      by (simp add: Q WANTED_BITS_def)
    with m(1) m2 show ?thesis by (intro exI [of _ "?Q mod 2 ^ 63 + 1"]) simp
  qed
  then obtain u where u: "0 \<le> u" "u < 2 ^ 63" "snd (snd ?E) = Some (word_of_int u)" by blast
  have s: "?s = 1 \<or> ?s = - 1" by simp
  have ss: "mpfr_sign x * mpfr_sign y = ?s"
    using regular_sign [OF assms(1)] regular_sign [OF assms(2)] by auto
  have "fst (snd (mpfr_remquo rem v x y rnd)) = word_of_int u * word_of_int ?s"
    unfolding mpfr_remquo_def mpfr_rem1_regular [OF assms(1,2)] Let_def u(3)
    by (simp split: prod.splits)
  then have "sint (fst (snd (mpfr_remquo rem v x y rnd))) = u * ?s"
    by (simp only: quo_signed [OF u(1,2) s])
  then show ?thesis unfolding ss using u(1) s by auto
qed

section \<open>The remainder engine: quotient and remainder\<close>

text \<open>
  The same failure with 53-bit operands: \<^verbatim>\<open>mpfr_fmod\<close> of \<open>2 ^ 60\<close> by 3 returns 4, not 1.
\<close>

lemma fmod_failure_at_53_bits:
  "mpfr_val (mk_mpfr 53 1 61 (2 ^ 52)) = 2 ^ 60
   \<and> mpfr_fmod (mk_mpfr 53 1 0 0) (mk_mpfr 53 1 61 (2 ^ 52)) (mk_mpfr 53 1 2 (3 * 2 ^ 51)) MPFR_RNDN
     = (mk_mpfr 53 1 3 (2 ^ 52), 0)
   \<and> mpfr_val (mk_mpfr 53 1 3 (2 ^ 52)) = 4
   \<and> remainder_of (quotient_trunc (2 ^ 60) 3) (2 ^ 60) 3 = 1"
  by code_simp

text \<open>
  C1: the claim asks that \<^verbatim>\<open>mpfr_fmod\<close> return \<open>x - q * y\<close> for \<open>q\<close> the quotient truncated
  toward zero. The two scenarios of the claim hold (\<open>remquo (5, 3)\<close> gives \<open>-1\<close> with
  quotient 2, and \<open>fmod (5, 3)\<close> gives 2), but for \<open>x = 4\<close> and \<open>y = 3\<close>, both held at
  precision 2, \<^verbatim>\<open>mpfr_fmod\<close> returns 4, exactly, where \<open>x - q * y = 1\<close>. In the branch
  \<^verbatim>\<open>ex > ey\<close> without \<^verbatim>\<open>quo\<close> the remainder is reduced modulo \<open>2 * y\<close>, and only the nearest
  mode reduces it further.
\<close>

theorem fmod_branch_gt_failing_input:
  "mpfr_remquo (mk_mpfr 3 1 0 0) 0 (mk_mpfr 3 1 3 5) (mk_mpfr 2 1 2 3) MPFR_RNDN
     = (mk_mpfr 3 (- 1) 1 4, 2, 0)
   \<and> mpfr_val (mk_mpfr 3 (- 1) 1 4) = remainder_of (quotient_nearest 5 3) 5 3
   \<and> quotient_nearest 5 3 = 2
   \<and> mpfr_fmod (mk_mpfr 3 1 0 0) (mk_mpfr 3 1 3 5) (mk_mpfr 2 1 2 3) MPFR_RNDN
     = (mk_mpfr 3 1 2 4, 0)
   \<and> mpfr_val (mk_mpfr 3 1 2 4) = remainder_of (quotient_trunc 5 3) 5 3
   \<and> mpfr_regular (mk_mpfr 2 1 3 2) \<and> mpfr_regular (mk_mpfr 2 1 2 3)
   \<and> mpfr_val (mk_mpfr 2 1 3 2) = 4 \<and> mpfr_val (mk_mpfr 2 1 2 3) = 3
   \<and> mpfr_fmod (mk_mpfr 2 1 0 0) (mk_mpfr 2 1 3 2) (mk_mpfr 2 1 2 3) MPFR_RNDN = (mk_mpfr 2 1 3 2, 0)
   \<and> remainder_of (quotient_trunc 4 3) 4 3 = 1"
  by code_simp

section \<open>The remainder engine: sign laws\<close>

text \<open>
  The increment of rem1.c line 190 is done in \<^verbatim>\<open>long\<close>: for \<open>x = 2 ^ 64 - 1\<close> and \<open>y = 2\<close> the
  low 63 bits of the quotient are all ones, the remainder is a tie, and \<^verbatim>\<open>*quo\<close> wraps to the
  least \<^verbatim>\<open>long\<close>, a negative number for a positive quotient.
\<close>

lemma remquo_increment_wraps:
  "sint (fst (snd (mpfr_remquo (mk_mpfr 2 1 0 0) 0 (mk_mpfr 64 1 64 (2 ^ 64 - 1)) (mk_mpfr 2 1 2 2)
                    MPFR_RNDN))) = - (2 ^ 63)"
  by code_simp

text \<open>
  C2, as amended: for regular \<open>x\<close> and \<open>y\<close> whose last bits keep clear of the reserved
  exponents and every rounding mode, the remainder returned by \<^verbatim>\<open>mpfr_fmod\<close> carries the sign
  of \<open>x\<close>, also when it is zero; the exact remainder that \<^verbatim>\<open>mpfr_remainder\<close> computes before
  the final rounding is at most \<open>|y| / 2\<close> in magnitude, and so is the returned remainder
  whenever the final rounding is exact; and the quotient stored by \<^verbatim>\<open>mpfr_remquo\<close> is zero or
  has the sign of \<open>x / y\<close>, whenever the low 63 bits of \<open>\<lfloor>|x / y|\<rfloor>\<close> are not all ones.
\<close>

theorem remainder_sign_laws:
  assumes "mpfr_regular x" and "mpfr_regular y" and "mpfr_in_range x" and "mpfr_in_range y"
  shows "mpfr_sign (fst (mpfr_fmod rem x y rnd)) = mpfr_sign x
    \<and> (let (r, e, q) = rem1_exact None MPFR_RNDN (fst (mpfr_get_z_exp x)) (snd (mpfr_get_z_exp x))
                          (fst (mpfr_get_z_exp y)) (snd (mpfr_get_z_exp y))
       in 2 * (\<bar>of_int r\<bar> * two_pow e) \<le> \<bar>mpfr_val y\<bar>)
    \<and> (snd (mpfr_remainder rem x y rnd) = 0 \<longrightarrow>
         2 * \<bar>mpfr_val (fst (mpfr_remainder rem x y rnd))\<bar> \<le> \<bar>mpfr_val y\<bar>)
    \<and> (\<lfloor>\<bar>mpfr_val x\<bar> / \<bar>mpfr_val y\<bar>\<rfloor> mod 2 ^ 63 \<noteq> 2 ^ 63 - 1 \<longrightarrow>
         0 \<le> sint (fst (snd (mpfr_remquo rem v x y rnd))) * (mpfr_sign x * mpfr_sign y))"
proof (intro conjI impI)
  show "mpfr_sign (fst (mpfr_fmod rem x y rnd)) = mpfr_sign x"
    by (rule fmod_sign [OF assms])
next
  obtain r e q where E: "rem1_exact None MPFR_RNDN (fst (mpfr_get_z_exp x)) (snd (mpfr_get_z_exp x))
      (fst (mpfr_get_z_exp y)) (snd (mpfr_get_z_exp y)) = (r, e, q)"
    using prod_cases3 by blast
  from remainder_exact_bound [OF assms(1,2) E]
  show "let (r, e, q) = rem1_exact None MPFR_RNDN (fst (mpfr_get_z_exp x)) (snd (mpfr_get_z_exp x))
                          (fst (mpfr_get_z_exp y)) (snd (mpfr_get_z_exp y))
        in 2 * (\<bar>of_int r\<bar> * two_pow e) \<le> \<bar>mpfr_val y\<bar>"
    by (simp add: E)
next
  have f: "fst (mpfr_remainder rem x y rnd) = fst (mpfr_rem1 rem None MPFR_RNDN x y rnd)"
    and s: "snd (mpfr_remainder rem x y rnd) = snd (snd (mpfr_rem1 rem None MPFR_RNDN x y rnd))"
    by (simp_all add: mpfr_remainder_def case_prod_beta)
  assume "snd (mpfr_remainder rem x y rnd) = 0"
  then have "snd (snd (mpfr_rem1 rem None MPFR_RNDN x y rnd)) = 0"
    by (simp only: s)
  from remainder_returned_bound [OF assms this]
  show "2 * \<bar>mpfr_val (fst (mpfr_remainder rem x y rnd))\<bar> \<le> \<bar>mpfr_val y\<bar>"
    by (simp only: f)
next
  assume "\<lfloor>\<bar>mpfr_val x\<bar> / \<bar>mpfr_val y\<bar>\<rfloor> mod 2 ^ 63 \<noteq> 2 ^ 63 - 1"
  then show "0 \<le> sint (fst (snd (mpfr_remquo rem v x y rnd))) * (mpfr_sign x * mpfr_sign y)"
    by (rule remquo_sign [OF assms(1,2)])
qed

lemma sample_five_three:
  "mpfr_regular (mk_mpfr 3 (- 1) 3 5)" "mpfr_regular (mk_mpfr 2 1 2 3)"
  "mpfr_in_range (mk_mpfr 3 (- 1) 3 5)" "mpfr_in_range (mk_mpfr 2 1 2 3)"
  by code_simp+

lemma sample_five_three_exact:
  "snd (mpfr_remainder (mk_mpfr 4 1 0 0) (mk_mpfr 3 (- 1) 3 5) (mk_mpfr 2 1 2 3) MPFR_RNDU) = 0"
  by code_simp

lemma sample_five_three_quotient:
  "\<lfloor>\<bar>mpfr_val (mk_mpfr 3 (- 1) 3 5)\<bar> / \<bar>mpfr_val (mk_mpfr 2 1 2 3)\<bar>\<rfloor> mod 2 ^ 63 \<noteq> 2 ^ 63 - 1"
  by code_simp

theorem remainder_sign_laws_witness:
  "mpfr_regular (mk_mpfr 3 (- 1) 3 5) \<and> mpfr_regular (mk_mpfr 2 1 2 3)
   \<and> mpfr_in_range (mk_mpfr 3 (- 1) 3 5) \<and> mpfr_in_range (mk_mpfr 2 1 2 3)
   \<and> mpfr_sign (fst (mpfr_fmod (mk_mpfr 4 1 0 0) (mk_mpfr 3 (- 1) 3 5) (mk_mpfr 2 1 2 3) MPFR_RNDU)) = - 1
   \<and> snd (mpfr_remainder (mk_mpfr 4 1 0 0) (mk_mpfr 3 (- 1) 3 5) (mk_mpfr 2 1 2 3) MPFR_RNDU) = 0
   \<and> 2 * \<bar>mpfr_val (fst (mpfr_remainder (mk_mpfr 4 1 0 0) (mk_mpfr 3 (- 1) 3 5) (mk_mpfr 2 1 2 3)
                            MPFR_RNDU))\<bar> \<le> \<bar>mpfr_val (mk_mpfr 2 1 2 3)\<bar>
   \<and> \<lfloor>\<bar>mpfr_val (mk_mpfr 3 (- 1) 3 5)\<bar> / \<bar>mpfr_val (mk_mpfr 2 1 2 3)\<bar>\<rfloor> mod 2 ^ 63 \<noteq> 2 ^ 63 - 1
   \<and> 0 \<le> sint (fst (snd (mpfr_remquo (mk_mpfr 4 1 0 0) 0 (mk_mpfr 3 (- 1) 3 5) (mk_mpfr 2 1 2 3)
                             MPFR_RNDU)))
            * (mpfr_sign (mk_mpfr 3 (- 1) 3 5) * mpfr_sign (mk_mpfr 2 1 2 3))"
proof -
  note t = remainder_sign_laws [OF sample_five_three, of "mk_mpfr 4 1 0 0" MPFR_RNDU 0]
  have s: "mpfr_sign (mk_mpfr 3 (- 1) 3 5) = - 1" by (simp add: mk_mpfr_def)
  from t have a: "mpfr_sign (fst (mpfr_fmod (mk_mpfr 4 1 0 0) (mk_mpfr 3 (- 1) 3 5) (mk_mpfr 2 1 2 3)
      MPFR_RNDU)) = - 1"
    by (simp only: s)
  from t sample_five_three_exact
  have b: "2 * \<bar>mpfr_val (fst (mpfr_remainder (mk_mpfr 4 1 0 0) (mk_mpfr 3 (- 1) 3 5) (mk_mpfr 2 1 2 3)
                            MPFR_RNDU))\<bar> \<le> \<bar>mpfr_val (mk_mpfr 2 1 2 3)\<bar>"
    by blast
  from t sample_five_three_quotient
  have c: "0 \<le> sint (fst (snd (mpfr_remquo (mk_mpfr 4 1 0 0) 0 (mk_mpfr 3 (- 1) 3 5) (mk_mpfr 2 1 2 3)
                             MPFR_RNDU)))
            * (mpfr_sign (mk_mpfr 3 (- 1) 3 5) * mpfr_sign (mk_mpfr 2 1 2 3))"
    by blast
  from a b c sample_five_three sample_five_three_exact sample_five_three_quotient
  show ?thesis by blast
qed

text \<open>
  For \<open>x = 5\<close>, \<open>y = 11\<close>, a destination of two bits and rounding toward \<open>+Inf\<close> the exact
  remainder 5 is rounded to 6, which exceeds \<open>11 / 2\<close>.
\<close>

theorem remainder_bound_counterexample:
  "mpfr_regular (mk_mpfr 3 1 3 5) \<and> mpfr_regular (mk_mpfr 4 1 4 11)
   \<and> mpfr_val (mk_mpfr 3 1 3 5) = 5 \<and> mpfr_val (mk_mpfr 4 1 4 11) = 11
   \<and> mpfr_remainder (mk_mpfr 2 1 0 0) (mk_mpfr 3 1 3 5) (mk_mpfr 4 1 4 11) MPFR_RNDU
       = (mk_mpfr 2 1 3 3, 1)
   \<and> mpfr_val (mk_mpfr 2 1 3 3) = 6
   \<and> \<not> 2 * \<bar>mpfr_val (fst (mpfr_remainder (mk_mpfr 2 1 0 0) (mk_mpfr 3 1 3 5) (mk_mpfr 4 1 4 11)
                             MPFR_RNDU))\<bar> \<le> \<bar>mpfr_val (mk_mpfr 4 1 4 11)\<bar>"
  by code_simp

section \<open>The remainder engine: special values\<close>

lemma mpfr_set_exact:
  assumes "mpfr_regular x" "mpfr_prec x \<le> mpfr_prec rem"
  shows "mpfr_set rem x rnd =
     (rem\<lparr>mpfr_sign := mpfr_sign x, mpfr_exp := mpfr_exp x,
           mpfr_d := mpfr_d x * 2 ^ (mpfr_prec rem - mpfr_prec x)\<rparr>, 0)"
  using regular_not_singular [OF assms(1)] regular_nbits [OF assms(1)] assms(2)
  by (simp add: mpfr_set_def mpfr_set4_def round_raw_exact)

lemma mpfr_set_exact_val:
  assumes "mpfr_regular x" "mpfr_prec x \<le> mpfr_prec rem"
  shows "mpfr_val (fst (mpfr_set rem x rnd)) = mpfr_val x"
proof -
  let ?k = "mpfr_prec rem - mpfr_prec x"
  have le: "mpfr_exp x - int (mpfr_prec rem) \<le> mpfr_exp x - int (mpfr_prec x)"
    using assms(2) by simp
  have "two_pow (mpfr_exp x - int (mpfr_prec x)) = 2 ^ ?k * two_pow (mpfr_exp x - int (mpfr_prec rem))"
    using two_pow_diff_nat [OF le] assms(2) by (simp add: nat_diff_distrib)
  then show ?thesis
    using regular_not_singular [OF assms(1)]
    by (simp add: mpfr_set_exact [OF assms] mpfr_val_def MPFR_IS_ZERO_def)
qed

text \<open>
  C3, as amended: if an operand is NaN, or \<open>x\<close> is infinite, or \<open>y\<close> is zero, \<^verbatim>\<open>mpfr_rem1\<close>
  stores NaN, leaves \<^verbatim>\<open>*quo\<close> as it was and returns normally. If \<open>y\<close> is infinite and \<open>x\<close>
  is neither NaN nor infinite, the remainder is \<open>x\<close> rounded to the precision of the
  destination in the caller's mode, that is \<open>x\<close> itself when the destination is at least as
  precise as \<open>x\<close>, and the quotient is 0. If \<open>x\<close> is zero and \<open>y\<close> is neither NaN nor zero,
  the remainder is the zero of the sign of \<open>x\<close> and the quotient is 0.
\<close>

theorem rem1_special_values:
  "(MPFR_IS_NAN x \<or> MPFR_IS_NAN y \<or> MPFR_IS_INF x \<or> MPFR_IS_ZERO y \<longrightarrow>
      (\<exists>r. mpfr_rem1 rem quo rnd_q x y rnd = (r, quo, 0) \<and> MPFR_IS_NAN r))
   \<and> (MPFR_IS_INF y \<and> \<not> MPFR_IS_NAN x \<and> \<not> MPFR_IS_INF x \<longrightarrow>
      mpfr_rem1 rem quo rnd_q x y rnd
        = (fst (mpfr_set rem x rnd), map_option (\<lambda>_. 0) quo, snd (mpfr_set rem x rnd)))
   \<and> (MPFR_IS_INF y \<and> mpfr_regular x \<and> mpfr_prec x \<le> mpfr_prec rem \<longrightarrow>
      (\<exists>r. mpfr_rem1 rem quo rnd_q x y rnd = (r, map_option (\<lambda>_. 0) quo, 0)
         \<and> mpfr_val r = mpfr_val x \<and> mpfr_sign r = mpfr_sign x \<and> mpfr_exp r = mpfr_exp x))
   \<and> (MPFR_IS_ZERO x \<and> \<not> MPFR_IS_NAN y \<and> \<not> MPFR_IS_ZERO y \<longrightarrow>
      (\<exists>r. mpfr_rem1 rem quo rnd_q x y rnd = (r, map_option (\<lambda>_. 0) quo, 0)
         \<and> MPFR_IS_ZERO r \<and> mpfr_sign r = mpfr_sign x))"
proof (intro conjI impI)
  assume "MPFR_IS_NAN x \<or> MPFR_IS_NAN y \<or> MPFR_IS_INF x \<or> MPFR_IS_ZERO y"
  moreover from this have "MPFR_IS_SINGULAR x \<or> MPFR_IS_SINGULAR y"
    using sentinels_le
    by (auto simp: MPFR_IS_SINGULAR_def MPFR_IS_NAN_def MPFR_IS_INF_def MPFR_IS_ZERO_def)
  ultimately show "\<exists>r. mpfr_rem1 rem quo rnd_q x y rnd = (r, quo, 0) \<and> MPFR_IS_NAN r"
    by (simp add: mpfr_rem1_def MPFR_SET_NAN_def MPFR_IS_NAN_def)
next
  assume a: "MPFR_IS_INF y \<and> \<not> MPFR_IS_NAN x \<and> \<not> MPFR_IS_INF x"
  then have "MPFR_IS_SINGULAR y" "\<not> MPFR_IS_NAN y" "\<not> MPFR_IS_ZERO y"
    using sentinels_distinct
    by (auto simp: MPFR_IS_SINGULAR_def MPFR_IS_NAN_def MPFR_IS_INF_def MPFR_IS_ZERO_def)
  with a show "mpfr_rem1 rem quo rnd_q x y rnd
        = (fst (mpfr_set rem x rnd), map_option (\<lambda>_. 0) quo, snd (mpfr_set rem x rnd))"
    by (simp add: mpfr_rem1_def Let_def case_prod_beta)
next
  assume a: "MPFR_IS_INF y \<and> mpfr_regular x \<and> mpfr_prec x \<le> mpfr_prec rem"
  then have r: "mpfr_regular x" and p: "mpfr_prec x \<le> mpfr_prec rem" by simp_all
  from a have "MPFR_IS_SINGULAR y" "\<not> MPFR_IS_NAN y" "\<not> MPFR_IS_ZERO y"
    using sentinels_distinct
    by (auto simp: MPFR_IS_SINGULAR_def MPFR_IS_NAN_def MPFR_IS_INF_def MPFR_IS_ZERO_def)
  with regular_not_singular [OF r]
  have "mpfr_rem1 rem quo rnd_q x y rnd
        = (fst (mpfr_set rem x rnd), map_option (\<lambda>_. 0) quo, snd (mpfr_set rem x rnd))"
    by (simp add: mpfr_rem1_def Let_def case_prod_beta)
  moreover have "snd (mpfr_set rem x rnd) = 0" "mpfr_sign (fst (mpfr_set rem x rnd)) = mpfr_sign x"
    "mpfr_exp (fst (mpfr_set rem x rnd)) = mpfr_exp x"
    by (simp_all add: mpfr_set_exact [OF r p])
  ultimately show "\<exists>r. mpfr_rem1 rem quo rnd_q x y rnd = (r, map_option (\<lambda>_. 0) quo, 0)
         \<and> mpfr_val r = mpfr_val x \<and> mpfr_sign r = mpfr_sign x \<and> mpfr_exp r = mpfr_exp x"
    using mpfr_set_exact_val [OF r p, of rnd] by simp
next
  assume a: "MPFR_IS_ZERO x \<and> \<not> MPFR_IS_NAN y \<and> \<not> MPFR_IS_ZERO y"
  then have "MPFR_IS_SINGULAR x" "\<not> MPFR_IS_NAN x" "\<not> MPFR_IS_INF x"
    using sentinels_distinct sentinels_le
    by (auto simp: MPFR_IS_SINGULAR_def MPFR_IS_NAN_def MPFR_IS_INF_def MPFR_IS_ZERO_def)
  with a show "\<exists>r. mpfr_rem1 rem quo rnd_q x y rnd = (r, map_option (\<lambda>_. 0) quo, 0)
         \<and> MPFR_IS_ZERO r \<and> mpfr_sign r = mpfr_sign x"
    by (simp add: mpfr_rem1_def Let_def mpfr_set_def mpfr_set4_def MPFR_SET_ZERO_def
        MPFR_IS_ZERO_def)
qed

lemma sample_special_operands:
  "MPFR_IS_ZERO (mk_mpfr 2 (- 1) MPFR_EXP_ZERO 0)" "MPFR_IS_INF (mk_mpfr 2 1 MPFR_EXP_INF 0)"
  "\<not> MPFR_IS_NAN (mk_mpfr 2 1 MPFR_EXP_INF 0)" "\<not> MPFR_IS_ZERO (mk_mpfr 2 1 MPFR_EXP_INF 0)"
  "mpfr_regular (mk_mpfr 3 1 3 5)" "mpfr_prec (mk_mpfr 3 1 3 5) \<le> mpfr_prec (mk_mpfr 4 1 0 0)"
  "\<not> MPFR_IS_NAN (mk_mpfr 3 1 3 5)" "\<not> MPFR_IS_INF (mk_mpfr 3 1 3 5)"
  by code_simp+

theorem rem1_special_values_witness:
  "MPFR_IS_ZERO (mk_mpfr 2 (- 1) MPFR_EXP_ZERO 0) \<and> MPFR_IS_INF (mk_mpfr 2 1 MPFR_EXP_INF 0)
   \<and> mpfr_regular (mk_mpfr 3 1 3 5) \<and> mpfr_prec (mk_mpfr 3 1 3 5) \<le> mpfr_prec (mk_mpfr 4 1 0 0)
   \<and> (\<exists>r. mpfr_rem1 (mk_mpfr 4 1 0 0) (Some 7) MPFR_RNDN (mk_mpfr 2 (- 1) MPFR_EXP_ZERO 0)
             (mk_mpfr 2 (- 1) MPFR_EXP_ZERO 0) MPFR_RNDU = (r, Some 7, 0) \<and> MPFR_IS_NAN r)
   \<and> (\<exists>r. mpfr_rem1 (mk_mpfr 4 1 0 0) (Some 7) MPFR_RNDN (mk_mpfr 3 1 3 5)
             (mk_mpfr 2 1 MPFR_EXP_INF 0) MPFR_RNDU = (r, Some 0, 0)
          \<and> mpfr_val r = mpfr_val (mk_mpfr 3 1 3 5) \<and> mpfr_sign r = 1)
   \<and> (\<exists>r. mpfr_rem1 (mk_mpfr 4 1 0 0) (Some 7) MPFR_RNDN (mk_mpfr 2 (- 1) MPFR_EXP_ZERO 0)
             (mk_mpfr 2 1 MPFR_EXP_INF 0) MPFR_RNDU = (r, Some 0, 0)
          \<and> MPFR_IS_ZERO r \<and> mpfr_sign r = - 1)"
proof -
  note s = sample_special_operands
  note t1 = rem1_special_values [where x = "mk_mpfr 2 (- 1) MPFR_EXP_ZERO 0"
      and y = "mk_mpfr 2 (- 1) MPFR_EXP_ZERO 0" and rem = "mk_mpfr 4 1 0 0" and quo = "Some 7"
      and rnd_q = MPFR_RNDN and rnd = MPFR_RNDU]
  note t2 = rem1_special_values [where x = "mk_mpfr 3 1 3 5"
      and y = "mk_mpfr 2 1 MPFR_EXP_INF 0" and rem = "mk_mpfr 4 1 0 0" and quo = "Some 7"
      and rnd_q = MPFR_RNDN and rnd = MPFR_RNDU]
  note t3 = rem1_special_values [where x = "mk_mpfr 2 (- 1) MPFR_EXP_ZERO 0"
      and y = "mk_mpfr 2 1 MPFR_EXP_INF 0" and rem = "mk_mpfr 4 1 0 0" and quo = "Some 7"
      and rnd_q = MPFR_RNDN and rnd = MPFR_RNDU]
  have sg: "mpfr_sign (mk_mpfr 3 1 3 5) = 1" "mpfr_sign (mk_mpfr 2 (- 1) MPFR_EXP_ZERO 0) = - 1"
    by (simp_all add: mk_mpfr_def)
  from t1 [THEN conjunct1] s(1)
  have a: "\<exists>r. mpfr_rem1 (mk_mpfr 4 1 0 0) (Some 7) MPFR_RNDN (mk_mpfr 2 (- 1) MPFR_EXP_ZERO 0)
             (mk_mpfr 2 (- 1) MPFR_EXP_ZERO 0) MPFR_RNDU = (r, Some 7, 0) \<and> MPFR_IS_NAN r"
    by blast
  have h2: "MPFR_IS_INF (mk_mpfr 2 1 MPFR_EXP_INF 0) \<and> mpfr_regular (mk_mpfr 3 1 3 5)
      \<and> mpfr_prec (mk_mpfr 3 1 3 5) \<le> mpfr_prec (mk_mpfr 4 1 0 0)"
    using s(2,5,6) by simp
  from t2 [THEN conjunct2, THEN conjunct2, THEN conjunct1, THEN mp, OF h2]
  have b: "\<exists>r. mpfr_rem1 (mk_mpfr 4 1 0 0) (Some 7) MPFR_RNDN (mk_mpfr 3 1 3 5)
             (mk_mpfr 2 1 MPFR_EXP_INF 0) MPFR_RNDU = (r, Some 0, 0)
          \<and> mpfr_val r = mpfr_val (mk_mpfr 3 1 3 5) \<and> mpfr_sign r = 1"
    by (auto simp: sg)
  have h3: "MPFR_IS_ZERO (mk_mpfr 2 (- 1) MPFR_EXP_ZERO 0) \<and> \<not> MPFR_IS_NAN (mk_mpfr 2 1 MPFR_EXP_INF 0)
      \<and> \<not> MPFR_IS_ZERO (mk_mpfr 2 1 MPFR_EXP_INF 0)"
    using s(1,3,4) by simp
  from t3 [THEN conjunct2, THEN conjunct2, THEN conjunct2, THEN mp, OF h3]
  have c: "\<exists>r. mpfr_rem1 (mk_mpfr 4 1 0 0) (Some 7) MPFR_RNDN (mk_mpfr 2 (- 1) MPFR_EXP_ZERO 0)
             (mk_mpfr 2 1 MPFR_EXP_INF 0) MPFR_RNDU = (r, Some 0, 0)
          \<and> MPFR_IS_ZERO r \<and> mpfr_sign r = - 1"
    by (auto simp: sg)
  from a b c s show ?thesis by blast
qed

text \<open>
  For \<open>x = 5\<close> held at three bits, \<open>y = +Inf\<close> and a destination of two bits the remainder
  is 4, not \<open>x\<close>.
\<close>

theorem rem1_infinite_divisor_counterexample:
  "MPFR_IS_INF (mk_mpfr 2 1 MPFR_EXP_INF 0) \<and> mpfr_regular (mk_mpfr 3 1 3 5)
   \<and> mpfr_val (mk_mpfr 3 1 3 5) = 5
   \<and> mpfr_remainder (mk_mpfr 2 1 0 0) (mk_mpfr 3 1 3 5) (mk_mpfr 2 1 MPFR_EXP_INF 0) MPFR_RNDN
       = (mk_mpfr 2 1 3 2, - 1)
   \<and> mpfr_val (mk_mpfr 2 1 3 2) = 4"
  by code_simp

section \<open>Trivial cases of gamma\<close>

lemma cmp_ui_1_zero_val:
  assumes "mpfr_regular x" "mpfr_cmp_ui_1 x = 0"
  shows "mpfr_val x = 1"
proof -
  from assms(2) have s: "\<not> mpfr_sign x < 0" and e: "mpfr_exp x = 1"
    and d: "mpfr_d x = 2 ^ (mpfr_prec x - 1)"
    by (auto simp: mpfr_cmp_ui_1_def split: if_splits)
  from s regular_sign [OF assms(1)] have s1: "mpfr_sign x = 1" by auto
  have p: "0 < mpfr_prec x" using assms(1) by (simp add: mpfr_regular_def MPFR_PREC_MIN_def)
  have "1 - int (mpfr_prec x) + int (mpfr_prec x - 1) = 0" using p by simp
  then have "two_pow (1 - int (mpfr_prec x)) * two_pow (int (mpfr_prec x - 1)) = 1"
    by (simp only: two_pow_add [symmetric] two_pow_0)
  then have "two_pow (1 - int (mpfr_prec x)) * 2 ^ (mpfr_prec x - 1) = 1"
    by (simp only: two_pow_nat)
  then show ?thesis
    using regular_not_singular [OF assms(1)]
    by (simp add: mpfr_val_def s1 e d mult.commute)
qed

lemma val_one_cmp_ui_1:
  assumes "mpfr_regular x" "mpfr_val x = 1"
  shows "mpfr_cmp_ui_1 x = 0"
proof -
  let ?p = "mpfr_prec x" and ?d = "mpfr_d x" and ?k = "mpfr_exp x - int (mpfr_prec x)"
  have p: "2 \<le> ?p" and lo: "2 ^ (?p - 1) \<le> ?d" and hi: "?d < 2 ^ ?p"
    using assms(1) by (simp_all add: mpfr_regular_def MPFR_PREC_MIN_def)
  have v: "of_int (mpfr_sign x) * of_nat ?d * two_pow ?k = 1"
    using assms(2) regular_not_singular [OF assms(1)] by (simp add: mpfr_val_def)
  have dpos: "(0::rat) < of_nat ?d" using regular_d_pos [OF assms(1)] by simp
  have s1: "mpfr_sign x = 1"
  proof (rule ccontr)
    assume "mpfr_sign x \<noteq> 1"
    with regular_sign [OF assms(1)] have "mpfr_sign x = - 1" by simp
    with v have "- (of_nat ?d * two_pow ?k) = (1::rat)" by simp
    moreover have "(0::rat) < of_nat ?d * two_pow ?k" using dpos by simp
    ultimately show False by linarith
  qed
  with v have v1: "of_nat ?d * two_pow ?k = 1" by simp
  have neg: "?k < 0"
  proof (rule ccontr)
    assume "\<not> ?k < 0"
    then have "two_pow ?k = 2 ^ nat ?k" by (simp add: two_pow_def)
    with v1 have "(of_nat (?d * 2 ^ nat ?k) :: rat) = of_nat 1" by simp
    then have "?d * 2 ^ nat ?k = 1" by (simp only: of_nat_eq_iff)
    then have "?d = 1" by simp
    moreover have "(2::nat) ^ 1 \<le> 2 ^ (?p - 1)" using p by (intro power_increasing) simp_all
    ultimately show False using lo by simp
  qed
  then have "two_pow ?k = 1 / 2 ^ nat (- ?k)" by (simp add: two_pow_def)
  with v1 have "(of_nat ?d :: rat) = 2 ^ nat (- ?k)" by (simp add: field_simps)
  then have "(of_nat ?d :: rat) = of_nat (2 ^ nat (- ?k))" by simp
  then have dk: "?d = 2 ^ nat (- ?k)" by (simp only: of_nat_eq_iff)
  from lo dk have "?p - 1 \<le> nat (- ?k)" by (simp add: power_increasing_iff)
  moreover from hi dk have "nat (- ?k) < ?p" by (simp add: power_strict_increasing_iff)
  ultimately have k: "nat (- ?k) = ?p - 1" by simp
  with neg p have e: "mpfr_exp x = 1" by linarith
  from dk k have "?d = 2 ^ (?p - 1)" by simp
  with e s1 show ?thesis by (simp add: mpfr_cmp_ui_1_def)
qed

lemma mpfr_set_ui_one:
  assumes "0 < mpfr_prec g"
  shows "mpfr_set_ui g 1 rnd = (g\<lparr>mpfr_sign := 1, mpfr_exp := 1, mpfr_d := 2 ^ (mpfr_prec g - 1)\<rparr>, 0)"
proof -
  have n: "nbits (Suc 0) = Suc 0" using nbits_pos [of 1] by simp
  have "round_raw (mpfr_prec g) rnd False (Suc 0)
          = (Suc 0 * 2 ^ (mpfr_prec g - nbits (Suc 0)), int (nbits (Suc 0)), 0)"
    by (rule round_raw_exact) (use assms n in simp)
  then show ?thesis by (simp add: mpfr_set_ui_def mpfr_set_z_def n)
qed

lemma mpfr_set_ui_one_val:
  assumes "0 < mpfr_prec g"
  shows "mpfr_val (fst (mpfr_set_ui g 1 rnd)) = 1"
proof -
  have "1 - int (mpfr_prec g) + int (mpfr_prec g - 1) = 0" using assms by simp
  then have "two_pow (1 - int (mpfr_prec g)) * two_pow (int (mpfr_prec g - 1)) = 1"
    by (simp only: two_pow_add [symmetric] two_pow_0)
  then have "two_pow (1 - int (mpfr_prec g)) * 2 ^ (mpfr_prec g - 1) = 1"
    by (simp only: two_pow_nat)
  then show ?thesis
    unfolding mpfr_set_ui_one [OF assms]
    by (simp add: mpfr_val_def MPFR_IS_ZERO_def MPFR_EXP_ZERO_def mult.commute)
qed

text \<open>
  C4, as amended: for every rounding mode \<^verbatim>\<open>mpfr_gamma\<close> maps NaN to NaN, a zero to an
  infinity, an infinity to an infinity, and an input equal to 1 to exactly 1. Every other
  regular input, a negative integer included, is no trivial case: it goes through the
  series-and-reflection loop and the result is the rounded trial value of that loop.
\<close>

theorem gamma_trivial_cases:
  "(MPFR_IS_NAN x \<longrightarrow> (\<exists>r. mpfr_gamma S cr g x rnd = Some (r, 1) \<and> MPFR_IS_NAN r))
   \<and> (MPFR_IS_ZERO x \<or> MPFR_IS_INF x \<longrightarrow>
        (\<exists>r. mpfr_gamma S cr g x rnd = Some (r, 1) \<and> MPFR_IS_INF r))
   \<and> (mpfr_regular x \<and> mpfr_val x = 1 \<and> 0 < mpfr_prec g \<longrightarrow>
        (\<exists>r. mpfr_gamma S cr g x rnd = Some (r, 1) \<and> mpfr_val r = 1 \<and> mpfr_exp r = 1))
   \<and> (mpfr_regular x \<and> mpfr_val x \<noteq> 1 \<longrightarrow>
        mpfr_gamma S cr g x rnd
          = map_option (\<lambda>t. (t, 1)) (gamma_loop S cr g x rnd (mpfr_cmp_ui_1 x) (mpfr_prec g + 10)))"
proof (intro conjI impI)
  assume "MPFR_IS_NAN x"
  then show "\<exists>r. mpfr_gamma S cr g x rnd = Some (r, 1) \<and> MPFR_IS_NAN r"
    by (simp add: mpfr_gamma_def MPFR_SET_NAN_def MPFR_IS_NAN_def)
next
  assume a: "MPFR_IS_ZERO x \<or> MPFR_IS_INF x"
  then have "\<not> MPFR_IS_NAN x"
    using sentinels_distinct by (auto simp: MPFR_IS_NAN_def MPFR_IS_ZERO_def MPFR_IS_INF_def)
  with a show "\<exists>r. mpfr_gamma S cr g x rnd = Some (r, 1) \<and> MPFR_IS_INF r"
    by (auto simp: mpfr_gamma_def MPFR_SET_INF_def MPFR_IS_INF_def)
next
  assume a: "mpfr_regular x \<and> mpfr_val x = 1 \<and> 0 < mpfr_prec g"
  then have c: "mpfr_cmp_ui_1 x = 0" by (simp add: val_one_cmp_ui_1)
  from a have p: "0 < mpfr_prec g" by simp
  from a regular_not_singular [of x] c
  have "mpfr_gamma S cr g x rnd = Some (fst (mpfr_set_ui g 1 rnd), 1)"
    by (simp add: mpfr_gamma_def Let_def)
  then show "\<exists>r. mpfr_gamma S cr g x rnd = Some (r, 1) \<and> mpfr_val r = 1 \<and> mpfr_exp r = 1"
    using mpfr_set_ui_one_val [OF p, of rnd] unfolding mpfr_set_ui_one [OF p] by simp
next
  assume a: "mpfr_regular x \<and> mpfr_val x \<noteq> 1"
  then have c: "mpfr_cmp_ui_1 x \<noteq> 0" using cmp_ui_1_zero_val [of x] by blast
  from a regular_not_singular [of x] c
  show "mpfr_gamma S cr g x rnd
          = map_option (\<lambda>t. (t, 1)) (gamma_loop S cr g x rnd (mpfr_cmp_ui_1 x) (mpfr_prec g + 10))"
    by (simp add: mpfr_gamma_def Let_def split: option.splits)
qed

lemma sample_gamma_operands:
  "MPFR_IS_NAN (mk_mpfr 2 1 MPFR_EXP_NAN 0)"
  "MPFR_IS_ZERO (mk_mpfr 2 1 MPFR_EXP_ZERO 0) \<or> MPFR_IS_INF (mk_mpfr 2 1 MPFR_EXP_ZERO 0)"
  "mpfr_regular (mk_mpfr 2 1 1 2) \<and> mpfr_val (mk_mpfr 2 1 1 2) = 1 \<and> 0 < mpfr_prec (mk_mpfr 2 (- 1) 0 0)"
  "mpfr_regular (mk_mpfr 2 1 2 3) \<and> mpfr_val (mk_mpfr 2 1 2 3) \<noteq> 1"
  by code_simp+

theorem gamma_trivial_cases_witness:
  "MPFR_IS_NAN (mk_mpfr 2 1 MPFR_EXP_NAN 0)
   \<and> (\<exists>r. mpfr_gamma sample_series sample_can_round (mk_mpfr 2 (- 1) 0 0) (mk_mpfr 2 1 MPFR_EXP_NAN 0)
             MPFR_RNDD = Some (r, 1) \<and> MPFR_IS_NAN r)
   \<and> MPFR_IS_ZERO (mk_mpfr 2 1 MPFR_EXP_ZERO 0)
   \<and> (\<exists>r. mpfr_gamma sample_series sample_can_round (mk_mpfr 2 (- 1) 0 0) (mk_mpfr 2 1 MPFR_EXP_ZERO 0)
             MPFR_RNDD = Some (r, 1) \<and> MPFR_IS_INF r)
   \<and> mpfr_regular (mk_mpfr 2 1 1 2) \<and> mpfr_val (mk_mpfr 2 1 1 2) = 1
   \<and> (\<exists>r. mpfr_gamma sample_series sample_can_round (mk_mpfr 2 (- 1) 0 0) (mk_mpfr 2 1 1 2)
             MPFR_RNDD = Some (r, 1) \<and> mpfr_val r = 1 \<and> mpfr_exp r = 1)
   \<and> mpfr_regular (mk_mpfr 2 1 2 3) \<and> mpfr_val (mk_mpfr 2 1 2 3) \<noteq> 1
   \<and> mpfr_gamma sample_series sample_can_round (mk_mpfr 2 (- 1) 0 0) (mk_mpfr 2 1 2 3) MPFR_RNDD
       = map_option (\<lambda>t. (t, 1))
           (gamma_loop sample_series sample_can_round (mk_mpfr 2 (- 1) 0 0) (mk_mpfr 2 1 2 3)
              MPFR_RNDD (mpfr_cmp_ui_1 (mk_mpfr 2 1 2 3)) (mpfr_prec (mk_mpfr 2 (- 1) 0 0) + 10))"
proof -
  note s = sample_gamma_operands
  have z: "MPFR_IS_ZERO (mk_mpfr 2 1 MPFR_EXP_ZERO 0)" by (simp add: MPFR_IS_ZERO_def mk_mpfr_def)
  note a = gamma_trivial_cases [where x = "mk_mpfr 2 1 MPFR_EXP_NAN 0" and S = sample_series
      and cr = sample_can_round and g = "mk_mpfr 2 (- 1) 0 0" and rnd = MPFR_RNDD,
      THEN conjunct1, THEN mp, OF s(1)]
  note b = gamma_trivial_cases [where x = "mk_mpfr 2 1 MPFR_EXP_ZERO 0" and S = sample_series
      and cr = sample_can_round and g = "mk_mpfr 2 (- 1) 0 0" and rnd = MPFR_RNDD,
      THEN conjunct2, THEN conjunct1, THEN mp, OF s(2)]
  note c = gamma_trivial_cases [where x = "mk_mpfr 2 1 1 2" and S = sample_series
      and cr = sample_can_round and g = "mk_mpfr 2 (- 1) 0 0" and rnd = MPFR_RNDD,
      THEN conjunct2, THEN conjunct2, THEN conjunct1, THEN mp, OF s(3)]
  note d = gamma_trivial_cases [where x = "mk_mpfr 2 1 2 3" and S = sample_series
      and cr = sample_can_round and g = "mk_mpfr 2 (- 1) 0 0" and rnd = MPFR_RNDD,
      THEN conjunct2, THEN conjunct2, THEN conjunct2, THEN mp, OF s(4)]
  from a b c d s(1,3,4) z show ?thesis by blast
qed

text \<open>
  \<open>x = -1\<close> takes the general path: with a series evaluation that answers 2 the result is
  2, no infinity. And for \<open>x = -Inf\<close> the sign field of the destination is left as it was:
  a destination that held a negative number becomes \<open>-Inf\<close>.
\<close>

theorem gamma_pole_counterexample:
  "mpfr_regular (mk_mpfr 2 (- 1) 1 2) \<and> mpfr_val (mk_mpfr 2 (- 1) 1 2) = - 1
   \<and> mpfr_gamma sample_series sample_can_round (mk_mpfr 2 (- 1) 0 0) (mk_mpfr 2 (- 1) 1 2) MPFR_RNDN
       = Some (mk_mpfr 2 1 2 2, 1)
   \<and> \<not> MPFR_IS_INF (mk_mpfr 2 1 2 2)
   \<and> MPFR_IS_INF (mk_mpfr 2 (- 1) MPFR_EXP_INF 0)
   \<and> mpfr_gamma sample_series sample_can_round (mk_mpfr 2 (- 1) 0 0)
        (mk_mpfr 2 (- 1) MPFR_EXP_INF 0) MPFR_RNDN
       = Some (mk_mpfr 2 (- 1) MPFR_EXP_INF 0, 1)"
  by code_simp

section \<open>The error estimate and the precision steps of atanh\<close>

text \<open>
  Where nothing overflows, line 107 of atanh.c computes \<open>Nt - max (4 - exponent t) 0 - 1\<close>:
  that is so for every working precision below \<open>2 ^ 63\<close> and every trial whose exponent
  field is at least \<open>6 - 2 ^ 63\<close>, which every regular number satisfies.
\<close>

lemma atanh_err_in_range:
  assumes "Nt < 2 ^ 63" "- (2 ^ 63) + 6 \<le> mpfr_exp t" "mpfr_exp t < 2 ^ 63"
  shows "atanh_err Nt t = int Nt - max (4 - mpfr_exp t) 0 - 1"
proof -
  let ?E = "mpfr_exp t"
  have d: "(4 :: 64 word) - word_of_int ?E = word_of_int (4 - ?E)" by simp
  have sd: "sint (word_of_int (4 - ?E) :: 64 word) = 4 - ?E"
    by (rule sint_small) (use assms in simp_all)
  have pos: "(0 <s (word_of_int (4 - ?E) :: 64 word)) \<longleftrightarrow> 0 < 4 - ?E"
    by (simp only: word_sless_alt sd sint_0)
  have m: "(if 0 <s (word_of_int (4 - ?E) :: 64 word) then word_of_int (4 - ?E) else 0) + 1
             = (word_of_int (max (4 - ?E) 0 + 1) :: 64 word)"
    unfolding pos by (simp add: max_def)
  have e: "(word_of_nat Nt :: 64 word) - word_of_int (max (4 - ?E) 0 + 1)
             = word_of_int (int Nt - (max (4 - ?E) 0 + 1))"
    by simp
  have s: "sint (word_of_int (int Nt - (max (4 - ?E) 0 + 1)) :: 64 word)
             = int Nt - (max (4 - ?E) 0 + 1)"
  proof (rule sint_small)
    show "- (2 ^ 63) \<le> int Nt - (max (4 - ?E) 0 + 1)" using assms(2) by (simp add: max_def)
    have "int Nt < 2 ^ 63" using assms(1) by (metis of_nat_less_iff of_nat_numeral of_nat_power)
    then show "int Nt - (max (4 - ?E) 0 + 1) < 2 ^ 63" by (simp add: max_def)
  qed
  show ?thesis
    unfolding atanh_err_def Let_def d m e s by simp
qed

text \<open>
  On a singular trial the exponent field is a sentinel next to the least \<^verbatim>\<open>long\<close>:
  \<^verbatim>\<open>4 - MPFR_GET_EXP (t)\<close> wraps round to a negative number, the maximum with 0 is 0 and the
  estimate is \<open>Nt - 1\<close>.
\<close>

lemma atanh_err_singular:
  assumes "MPFR_IS_NAN t \<or> MPFR_IS_INF t \<or> MPFR_IS_ZERO t" "Nt < 2 ^ 63"
  shows "atanh_err Nt t = int Nt - 1"
proof -
  have w: "(word_of_nat Nt :: 64 word) - 1 = word_of_int (int Nt - 1)" by simp
  have "int Nt < 2 ^ 63" using assms(2) by (metis of_nat_less_iff of_nat_numeral of_nat_power)
  then have s: "sint (word_of_int (int Nt - 1) :: 64 word) = int Nt - 1"
    by (intro sint_small) simp_all
  have n: "\<not> 0 <s (4 :: 64 word) - word_of_int (mpfr_exp t)"
    using assms(1)
    by (auto simp: MPFR_IS_NAN_def MPFR_IS_INF_def MPFR_IS_ZERO_def MPFR_EXP_NAN_def
        MPFR_EXP_INF_def MPFR_EXP_ZERO_def word_sless_alt)
  show ?thesis unfolding atanh_err_def Let_def using n by (simp only: if_False add_0 w s)
qed

text \<open>
  The loop of \<^verbatim>\<open>mpfr_atanh\<close> behaves as the loop whose trial number \<open>k\<close> runs at working
  precision \<open>Nt + 10 * k\<close>. While the trials have exponents in the range above they are
  judged with the estimate \<open>Nt\<^sub>k - max (4 - exponent t) 0 - 1\<close>: if the trials before the
  \<open>m\<close>-th fail that test and the \<open>m\<close>-th passes it, the loop returns the \<open>m\<close>-th trial.
\<close>

lemma atanh_loop_bound_and_growth:
  assumes "Nt + 10 * m < 2 ^ 63"
    and "\<forall>k\<le>m. - (2 ^ 63) + 6 \<le> mpfr_exp (atanh_trial P x (Nt + 10 * k))
               \<and> mpfr_exp (atanh_trial P x (Nt + 10 * k)) < 2 ^ 63"
    and "\<forall>k<m. (let Ntk = Nt + 10 * k; t = atanh_trial P x Ntk;
                     err = int Ntk - max (4 - mpfr_exp t) 0 - 1
                 in err < 0 \<or> \<not> mpfr_can_round P t err MPFR_RNDN MPFR_RNDZ n \<or> MPFR_IS_ZERO t)"
    and "let Ntm = Nt + 10 * m; t = atanh_trial P x Ntm;
             err = int Ntm - max (4 - mpfr_exp t) 0 - 1
         in 0 \<le> err \<and> mpfr_can_round P t err MPFR_RNDN MPFR_RNDZ n \<and> \<not> MPFR_IS_ZERO t"
  shows "atanh_loop P x n Nt = Some (atanh_trial P x (Nt + 10 * m))"
proof (rule atanh_loop_exit)
  have E: "int (Nt + 10 * k) - max (4 - mpfr_exp (atanh_trial P x (Nt + 10 * k))) 0 - 1
             = atanh_err (Nt + 10 * k) (atanh_trial P x (Nt + 10 * k))" if "k \<le> m" for k
  proof (rule atanh_err_in_range [symmetric])
    from that have "Nt + 10 * k \<le> Nt + 10 * m" by simp
    with assms(1) show "Nt + 10 * k < 2 ^ 63" by linarith
    from assms(2) that
    show "- (2 ^ 63) + 6 \<le> mpfr_exp (atanh_trial P x (Nt + 10 * k))"
      and "mpfr_exp (atanh_trial P x (Nt + 10 * k)) < 2 ^ 63"
      by blast+
  qed
  show "\<not> atanh_retries P x n Nt m"
    using assms(4) unfolding Let_def E [OF le_refl]
    by (simp add: atanh_retries_def atanh_retry_def Let_def)
  show "\<forall>k<m. atanh_retries P x n Nt k"
  proof (intro allI impI)
    fix k assume k: "k < m"
    then have "k \<le> m" by simp
    from assms(3) k
    have "let Ntk = Nt + 10 * k; t = atanh_trial P x Ntk;
              err = int Ntk - max (4 - mpfr_exp t) 0 - 1
          in err < 0 \<or> \<not> mpfr_can_round P t err MPFR_RNDN MPFR_RNDZ n \<or> MPFR_IS_ZERO t"
      by blast
    then show "atanh_retries P x n Nt k"
      unfolding Let_def E [OF \<open>k \<le> m\<close>]
      by (simp add: atanh_retries_def atanh_retry_def Let_def)
  qed
qed

lemma sample_atanh_loop_growth:
  "atanh_loop sample_prims (mk_mpfr 2 1 0 2) 2 7
     = Some (atanh_trial sample_prims (mk_mpfr 2 1 0 2) (7 + 10 * 1))"
proof (rule atanh_loop_bound_and_growth)
  show "7 + 10 * 1 < (2::nat) ^ 63" by simp
  have "\<forall>k\<in>{0, 1}. - (2 ^ 63) + 6 \<le> mpfr_exp (atanh_trial sample_prims (mk_mpfr 2 1 0 2) (7 + 10 * k))
               \<and> mpfr_exp (atanh_trial sample_prims (mk_mpfr 2 1 0 2) (7 + 10 * k)) < 2 ^ 63"
    by code_simp
  moreover have "k = 0 \<or> k = 1" if "k \<le> 1" for k :: nat using that by auto
  ultimately show "\<forall>k\<le>1. - (2 ^ 63) + 6 \<le> mpfr_exp (atanh_trial sample_prims (mk_mpfr 2 1 0 2) (7 + 10 * k))
               \<and> mpfr_exp (atanh_trial sample_prims (mk_mpfr 2 1 0 2) (7 + 10 * k)) < 2 ^ 63"
    by blast
  have h0: "let Ntk = 7 + 10 * 0; t = atanh_trial sample_prims (mk_mpfr 2 1 0 2) Ntk;
               err = int Ntk - max (4 - mpfr_exp t) 0 - 1
            in err < 0 \<or> \<not> mpfr_can_round sample_prims t err MPFR_RNDN MPFR_RNDZ 2 \<or> MPFR_IS_ZERO t"
    by code_simp
  then show "\<forall>k<1. (let Ntk = 7 + 10 * k; t = atanh_trial sample_prims (mk_mpfr 2 1 0 2) Ntk;
               err = int Ntk - max (4 - mpfr_exp t) 0 - 1
            in err < 0 \<or> \<not> mpfr_can_round sample_prims t err MPFR_RNDN MPFR_RNDZ 2 \<or> MPFR_IS_ZERO t)"
    by simp
  show "let Ntm = 7 + 10 * 1; t = atanh_trial sample_prims (mk_mpfr 2 1 0 2) Ntm;
           err = int Ntm - max (4 - mpfr_exp t) 0 - 1
       in 0 \<le> err \<and> mpfr_can_round sample_prims t err MPFR_RNDN MPFR_RNDZ 2 \<and> \<not> MPFR_IS_ZERO t"
    by code_simp
qed

text \<open>
  C6: \<^verbatim>\<open>mpfr_atanh\<close> at \<open>x = 1\<close>, with \<open>x\<close> and the destination of precision 2. The first
  working precision is 7 and the first trial is \<open>+Inf\<close>. Line 107 of atanh.c yields the
  estimate 6 there, while \<open>Nt - max (4 - exponent t) 0 - 1\<close> is \<open>5 - 2 ^ 63\<close>: the
  subtraction \<^verbatim>\<open>4 - MPFR_GET_EXP (t)\<close> has left the range of \<^verbatim>\<open>long\<close>.
\<close>

theorem atanh_err_overflow_failing_input:
  "mpfr_regular (mk_mpfr 2 1 1 2) \<and> mpfr_val (mk_mpfr 2 1 1 2) = 1
   \<and> atanh_abs (mk_mpfr 2 1 1 2) = mk_mpfr 2 1 1 2
   \<and> atanh_Nt0 2 2 = 7
   \<and> atanh_trial pole_prims (mk_mpfr 2 1 1 2) 7 = mk_mpfr 7 1 MPFR_EXP_INF 0
   \<and> MPFR_IS_INF (mk_mpfr 7 1 MPFR_EXP_INF 0)
   \<and> atanh_err 7 (mk_mpfr 7 1 MPFR_EXP_INF 0) = 6
   \<and> int 7 - max (4 - mpfr_exp (mk_mpfr 7 1 MPFR_EXP_INF 0)) 0 - 1 = 5 - 2 ^ 63"
  by code_simp

end
